theory Spec2Isabelle
  imports Main "HOL-Library.Multiset" "HOL-Library.AList"
begin

section \<open>Errors and tensors\<close>

text \<open>
  Every \<^verbatim>\<open>raise\<close> of \<^verbatim>\<open>dataloader.py\<close> and every exception of the interpreter that a claim
  depends on is a value of \<open>error\<close>; a fallible function returns \<open>error + 'a\<close> with
  \<open>Inl\<close> for the exception.
\<close>

datatype error =
    IndexError
  | TypeError
  | ValueError string
  | NameError string
  | MXNetError

text \<open>
  The device of a tensor: \<^verbatim>\<open>context.Context('cpu_shared', 0)\<close> is the shared-memory
  device, \<open>cpu\<close> is ordinary host memory.
\<close>

datatype device = cpu | cpu_shared

type_synonym dtype = string

text \<open>
  An \<^verbatim>\<open>nd.NDArray\<close>: its shape, element type, device and its elements in row-major
  order. The element type \<open>'v\<close> is left open, no arithmetic is ever done on elements.
\<close>

record 'v ndarray =
  shape :: "nat list"
  dtype :: dtype
  ctx :: device
  elems :: "'v list"

text \<open>A \<^verbatim>\<open>numpy\<close> array, the result of \<^verbatim>\<open>np.asarray\<close>.\<close>

record 'v nparray =
  np_shape :: "nat list"
  np_dtype :: dtype
  np_elems :: "'v list"

text \<open>
  A sample is what \<^verbatim>\<open>dataset[i]\<close> returns. The collate functions distinguish three
  cases by \<^verbatim>\<open>isinstance\<close>: an \<^verbatim>\<open>nd.NDArray\<close>, a \<^verbatim>\<open>tuple\<close>, and anything else
  (\<open>'o\<close>: a number, a numpy array, ...).
\<close>

datatype ('v, 'o) sample =
    NDArray "'v ndarray"
  | Tuple "('v, 'o) sample list"
  | Other 'o

text \<open>
  A batch is what a collate function returns: an \<^verbatim>\<open>nd.NDArray\<close>, or the Python list
  built by the list comprehension of the tuple branch.
\<close>

datatype 'v batch =
    BatchArray "'v ndarray"
  | BatchList "'v batch list"

section \<open>Helpers standing for Python built-ins\<close>

text \<open>
  A list comprehension whose element expression may raise: the elements are evaluated
  left to right and the first exception ends the comprehension.
\<close>

fun sequence :: "(error + 'a) list \<Rightarrow> error + 'a list" where
  "sequence [] = Inr []"
| "sequence (x # xs) =
     (case x of
        Inl e \<Rightarrow> Inl e
      | Inr v \<Rightarrow> (case sequence xs of Inl e \<Rightarrow> Inl e | Inr vs \<Rightarrow> Inr (v # vs)))"

text \<open>
  Unpacking one argument of \<^verbatim>\<open>zip(*data)\<close>. A tuple gives its fields. The model reports
  \<open>TypeError\<close> for every element that is not a tuple, as Python does for a number; how an
  \<^verbatim>\<open>NDArray\<close> or another iterable would be iterated there is not decided by this module.
\<close>

fun fields_of :: "('v, 'o) sample \<Rightarrow> error + ('v, 'o) sample list" where
  "fields_of (Tuple fs) = Inr fs"
| "fields_of (NDArray a) = Inl TypeError"
| "fields_of (Other x) = Inl TypeError"

text \<open>
  \<^verbatim>\<open>zip(*rows)\<close> for a non-empty list of rows: the \<open>j\<close>-th result holds the \<open>j\<close>-th field of
  every row, and \<^verbatim>\<open>zip\<close> stops at the shortest row.
\<close>

definition zip_star :: "'a list list \<Rightarrow> 'a list list" where
  "zip_star rows =
     (case rows of
        [] \<Rightarrow> []
      | r # rs \<Rightarrow> map (\<lambda>j. map (\<lambda>row. row ! j) rows)
                     [0 ..< fold min (map length rs) (length r)])"

section \<open>Tensor operations used by the collate functions\<close>

text \<open>
  Modelled from the spec: \<^verbatim>\<open>nd.stack\<close> of the \<^verbatim>\<open>nd\<close> package, which is not part of
  \<^verbatim>\<open>dataloader.py\<close>. The spec: "stack the list of per-sample tensors along a new leading
  dimension, producing one tensor of shape \<open>[len] + leaf_shape\<close>". The arguments must all
  be tensors of one shape and one element type; the result holds their elements one
  tensor after the other.
\<close>

fun the_ndarrays :: "('v, 'o) sample list \<Rightarrow> error + 'v ndarray list" where
  "the_ndarrays [] = Inr []"
| "the_ndarrays (NDArray a # xs) =
     (case the_ndarrays xs of Inl e \<Rightarrow> Inl e | Inr as \<Rightarrow> Inr (a # as))"
| "the_ndarrays (Tuple fs # xs) = Inl TypeError"
| "the_ndarrays (Other x # xs) = Inl TypeError"

definition stackable :: "'v ndarray list \<Rightarrow> bool" where
  "stackable as =
     (case as of
        [] \<Rightarrow> False
      | a # rest \<Rightarrow> list_all (\<lambda>b. shape b = shape a \<and> dtype b = dtype a) rest)"

definition nd_stack :: "('v, 'o) sample list \<Rightarrow> error + 'v ndarray" where
  "nd_stack data =
     (case the_ndarrays data of
        Inl e \<Rightarrow> Inl e
      | Inr as \<Rightarrow>
          if stackable as
          then Inr \<lparr>shape = length as # shape (hd as), dtype = dtype (hd as), ctx = cpu,
                    elems = concat (map elems as)\<rparr>
          else Inl MXNetError)"

text \<open>
  \<^verbatim>\<open>nd.stack(*data, out=out)\<close>: the same operation writing into the tensor \<open>out\<close>, which
  must have the shape and element type of the result; the result is \<open>out\<close>, filled.
\<close>

definition nd_stack_out :: "('v, 'o) sample list \<Rightarrow> 'v ndarray \<Rightarrow> error + 'v ndarray" where
  "nd_stack_out data out =
     (case the_ndarrays data of
        Inl e \<Rightarrow> Inl e
      | Inr as \<Rightarrow>
          if stackable as \<and> shape out = length as # shape (hd as) \<and> dtype out = dtype (hd as)
          then Inr (out\<lparr>elems := concat (map elems as)\<rparr>)
          else Inl MXNetError)"

text \<open>\<^verbatim>\<open>nd.empty(shape, dtype=..., ctx=...)\<close>: a tensor whose elements are not yet written.\<close>

definition nd_empty :: "nat list \<Rightarrow> dtype \<Rightarrow> device \<Rightarrow> 'v ndarray" where
  "nd_empty sh dt c = \<lparr>shape = sh, dtype = dt, ctx = c, elems = []\<rparr>"

text \<open>
  Modelled from the spec: \<^verbatim>\<open>nd.array(data, dtype=data.dtype, ctx=...)\<close> ("convert to
  tensor"): the tensor with the shape, element type and elements of the numpy array, on
  the given device.
\<close>

definition nd_array :: "'v nparray \<Rightarrow> device \<Rightarrow> 'v ndarray" where
  "nd_array arr c = \<lparr>shape = np_shape arr, dtype = np_dtype arr, ctx = c, elems = np_elems arr\<rparr>"

section \<open>The collate functions\<close>

text \<open>
  \<^verbatim>\<open>np.asarray\<close> belongs to numpy; the collate functions take it as the parameter
  \<open>asarray\<close>. \<^verbatim>\<open>data[0]\<close> on the empty list raises \<open>IndexError\<close>.
\<close>

type_synonym ('v, 'o) np_asarray = "('v, 'o) sample list \<Rightarrow> error + 'v nparray"

function default_batchify_fn ::
  "('v, 'o) np_asarray \<Rightarrow> ('v, 'o) sample list \<Rightarrow> error + 'v batch" where
  "default_batchify_fn asarray data =
     (case data of
        [] \<Rightarrow> Inl IndexError
      | d0 # rest \<Rightarrow>
          (case d0 of
             NDArray a \<Rightarrow>
               (case nd_stack data of Inl e \<Rightarrow> Inl e | Inr r \<Rightarrow> Inr (BatchArray r))
           | Tuple fs \<Rightarrow>
               (case sequence (map fields_of data) of
                  Inl e \<Rightarrow> Inl e
                | Inr rows \<Rightarrow>
                    (case sequence (map (default_batchify_fn asarray) (zip_star rows)) of
                       Inl e \<Rightarrow> Inl e
                     | Inr bs \<Rightarrow> Inr (BatchList bs)))
           | Other x \<Rightarrow>
               (case asarray data of
                  Inl e \<Rightarrow> Inl e
                | Inr arr \<Rightarrow> Inr (BatchArray (nd_array arr cpu)))))"
  by pat_completeness auto

text \<open>
  Termination: every column produced by \<^verbatim>\<open>zip(*data)\<close> holds one field of each sample, so
  the total size of the samples decreases in the recursive call.
\<close>

lemma zip_star_col:
  assumes "col \<in> set (zip_star rows)"
  shows "rows \<noteq> [] \<and> length col = length rows \<and> (\<forall>k < length rows. col ! k \<in> set (rows ! k))"
proof -
  obtain r rs where rows: "rows = r # rs" using assms by (cases rows) (auto simp: zip_star_def)
  have fm: "\<And>n xs. fold min xs (n::nat) \<le> n \<and> (\<forall>x\<in>set xs. fold min xs n \<le> x)"
  proof -
    fix n :: nat and xs show "fold min xs n \<le> n \<and> (\<forall>x\<in>set xs. fold min xs n \<le> x)"
    proof (induction xs arbitrary: n)
      case Nil show ?case by simp
    next
      case (Cons a xs)
      have "fold min xs (min a n) \<le> min a n" using Cons.IH by blast
      moreover have "\<forall>x\<in>set xs. fold min xs (min a n) \<le> x" using Cons.IH by blast
      ultimately show ?case by auto
    qed
  qed
  from assms rows obtain j where j: "j < fold min (map length rs) (length r)"
    and col: "col = map (\<lambda>row. row ! j) rows"
    by (auto simp: zip_star_def)
  have "\<forall>row \<in> set rows. j < length row"
    using j fm[of "map length rs" "length r"] rows by force
  then have "\<forall>k < length rows. col ! k \<in> set (rows ! k)"
    unfolding col by (simp add: nth_mem)
  then show ?thesis using col rows by simp
qed

lemma sequence_map_Inr: "sequence (map Inr ys) = Inr ys"
  by (induction ys) auto

lemma sequence_Inr_D: "sequence xs = Inr ys \<Longrightarrow> xs = map Inr ys"
  by (induction xs arbitrary: ys) (auto split: sum.splits)

lemma sequence_Inr_conv:
  "sequence xs = Inr ys \<longleftrightarrow> xs = map Inr ys"
  using sequence_map_Inr sequence_Inr_D by metis

lemma sum_list_strict:
  fixes f g :: "'a \<Rightarrow> nat"
  shows "length xs = length ys \<Longrightarrow> xs \<noteq> [] \<Longrightarrow> (\<forall>k < length xs. f (xs ! k) < g (ys ! k))
    \<Longrightarrow> sum_list (map f xs) < sum_list (map g ys)"
proof (induction xs ys rule: list_induct2)
  case Nil then show ?case by simp
next
  case (Cons x xs y ys)
  have h: "f x < g y" using Cons.prems(2) by force
  show ?case
  proof (cases "xs = []")
    case True then show ?thesis using h Cons.hyps by simp
  next
    case False
    have "\<forall>k<length xs. f (xs ! k) < g (ys ! k)" using Cons.prems(2) by force
    then have "sum_list (map f xs) < sum_list (map g ys)" using Cons.IH False by blast
    then show ?thesis using h by simp
  qed
qed

lemma termination_step:
  assumes "sequence (map fields_of data) = Inr rows" "col \<in> set (zip_star rows)"
  shows "sum_list (map size col) < sum_list (map size data)"
proof -
  have m: "map fields_of data = map Inr rows" using assms(1) by (simp add: sequence_Inr_conv)
  then have len: "length data = length rows" by (metis length_map)
  have c: "rows \<noteq> []" "length col = length rows" "\<forall>k < length rows. col ! k \<in> set (rows ! k)"
    using zip_star_col[OF assms(2)] by auto
  have "\<forall>k < length col. size (col ! k) < size (data ! k)"
  proof (intro allI impI)
    fix k assume k: "k < length col"
    then have "fields_of (data ! k) = Inr (rows ! k)"
      using m len c(2) by (metis nth_map)
    then have d: "data ! k = Tuple (rows ! k)" by (cases "data ! k") auto
    have "col ! k \<in> set (rows ! k)" using c k by simp
    then have "size (col ! k) \<le> size_list size (rows ! k)" by (simp add: size_list_estimation')
    then show "size (col ! k) < size (data ! k)" using d by simp
  qed
  moreover have "col \<noteq> []" using c by auto
  moreover have "length col = length data" using c len by simp
  ultimately show ?thesis using sum_list_strict[of col data size size] by blast
qed

termination default_batchify_fn
proof (relation "measure (\<lambda>(asarray, data). sum_list (map size data))", goal_cases)
  case 1
  show ?case by simp
next
  case (2 asarray data d0 rest fs rows col)
  from termination_step[OF 2(3) 2(4)] show ?case by simp
qed


function default_mp_batchify_fn ::
  "('v, 'o) np_asarray \<Rightarrow> ('v, 'o) sample list \<Rightarrow> error + 'v batch" where
  "default_mp_batchify_fn asarray data =
     (case data of
        [] \<Rightarrow> Inl IndexError
      | d0 # rest \<Rightarrow>
          (case d0 of
             NDArray a \<Rightarrow>
               (let out = nd_empty (length data # shape a) (dtype a) cpu_shared
                in case nd_stack_out data out of Inl e \<Rightarrow> Inl e | Inr r \<Rightarrow> Inr (BatchArray r))
           | Tuple fs \<Rightarrow>
               (case sequence (map fields_of data) of
                  Inl e \<Rightarrow> Inl e
                | Inr rows \<Rightarrow>
                    (case sequence (map (default_mp_batchify_fn asarray) (zip_star rows)) of
                       Inl e \<Rightarrow> Inl e
                     | Inr bs \<Rightarrow> Inr (BatchList bs)))
           | Other x \<Rightarrow>
               (case asarray data of
                  Inl e \<Rightarrow> Inl e
                | Inr arr \<Rightarrow> Inr (BatchArray (nd_array arr cpu_shared)))))"
  by pat_completeness auto

termination default_mp_batchify_fn
proof (relation "measure (\<lambda>(asarray, data). sum_list (map size data))", goal_cases)
  case 1
  show ?case by simp
next
  case (2 asarray data d0 rest fs rows col)
  from termination_step[OF 2(3) 2(4)] show ?case by simp
qed

declare default_batchify_fn.simps [simp del]
declare default_mp_batchify_fn.simps [simp del]

text \<open>
  Two batches are value-identical when they have the same nesting and every pair of
  corresponding tensors has the same shape, element type and elements; the device is
  not compared.
\<close>

fun same_values :: "'v batch \<Rightarrow> 'v batch \<Rightarrow> bool" where
  "same_values (BatchArray a) (BatchArray b) =
     (shape a = shape b \<and> dtype a = dtype b \<and> elems a = elems b)"
| "same_values (BatchList as) (BatchList bs) = list_all2 same_values as bs"
| "same_values (BatchArray a) (BatchList bs) = False"
| "same_values (BatchList as) (BatchArray b) = False"

text \<open>Every tensor of the batch is allocated on the device \<open>c\<close>.\<close>

fun on_device :: "device \<Rightarrow> 'v batch \<Rightarrow> bool" where
  "on_device c (BatchArray a) = (ctx a = c)"
| "on_device c (BatchList bs) = list_all (on_device c) bs"

text \<open>The same batch with every tensor moved to the device \<open>c\<close>.\<close>

fun relocate :: "device \<Rightarrow> 'v batch \<Rightarrow> 'v batch" where
  "relocate c (BatchArray a) = BatchArray (a\<lparr>ctx := c\<rparr>)"
| "relocate c (BatchList bs) = BatchList (map (relocate c) bs)"

subsection \<open>A concrete numpy conversion and concrete tensors\<close>

text \<open>
  \<^verbatim>\<open>np.asarray\<close> on a list of Python integers gives a one-dimensional \<^verbatim>\<open>int64\<close> array of
  them. This instance of the parameter is used to run the collate functions on concrete
  inputs.
\<close>

fun the_others :: "('v, 'o) sample list \<Rightarrow> error + 'o list" where
  "the_others [] = Inr []"
| "the_others (Other x # xs) =
     (case the_others xs of Inl e \<Rightarrow> Inl e | Inr vs \<Rightarrow> Inr (x # vs))"
| "the_others (NDArray a # xs) = Inl TypeError"
| "the_others (Tuple fs # xs) = Inl TypeError"

definition asarray_int64 :: "(int, int) np_asarray" where
  "asarray_int64 data =
     (case the_others data of
        Inl e \<Rightarrow> Inl e
      | Inr vs \<Rightarrow> Inr \<lparr>np_shape = [length vs], np_dtype = ''int64'', np_elems = vs\<rparr>)"

definition image0 :: "int ndarray" where
  "image0 = \<lparr>shape = [2], dtype = ''float32'', ctx = cpu, elems = [1, 2]\<rparr>"

definition image1 :: "int ndarray" where
  "image1 = \<lparr>shape = [2], dtype = ''float32'', ctx = cpu, elems = [3, 4]\<rparr>"

section \<open>Properties of the collate functions\<close>

lemma default_batchify_fn_Nil: "default_batchify_fn asarray [] = Inl IndexError"
  by (subst default_batchify_fn.simps) simp

lemma default_batchify_fn_NDArray:
  "default_batchify_fn asarray (NDArray a # rest) =
     (case nd_stack (NDArray a # rest) of Inl e \<Rightarrow> Inl e | Inr r \<Rightarrow> Inr (BatchArray r))"
  by (subst default_batchify_fn.simps) simp

lemma default_batchify_fn_Tuple:
  "default_batchify_fn asarray (Tuple fs # rest) =
     (case sequence (map fields_of (Tuple fs # rest)) of
        Inl e \<Rightarrow> Inl e
      | Inr rows \<Rightarrow>
          (case sequence (map (default_batchify_fn asarray) (zip_star rows)) of
             Inl e \<Rightarrow> Inl e
           | Inr bs \<Rightarrow> Inr (BatchList bs)))"
  by (subst default_batchify_fn.simps) simp

lemma default_batchify_fn_Other:
  "default_batchify_fn asarray (Other x # rest) =
     (case asarray (Other x # rest) of
        Inl e \<Rightarrow> Inl e
      | Inr arr \<Rightarrow> Inr (BatchArray (nd_array arr cpu)))"
  by (subst default_batchify_fn.simps) simp

lemma default_mp_batchify_fn_Nil: "default_mp_batchify_fn asarray [] = Inl IndexError"
  by (subst default_mp_batchify_fn.simps) simp

lemma default_mp_batchify_fn_NDArray:
  "default_mp_batchify_fn asarray (NDArray a # rest) =
     (case nd_stack_out (NDArray a # rest)
             (nd_empty (length (NDArray a # rest) # shape a) (dtype a) cpu_shared) of
        Inl e \<Rightarrow> Inl e | Inr r \<Rightarrow> Inr (BatchArray r))"
  by (subst default_mp_batchify_fn.simps) (simp add: Let_def)

lemma default_mp_batchify_fn_Tuple:
  "default_mp_batchify_fn asarray (Tuple fs # rest) =
     (case sequence (map fields_of (Tuple fs # rest)) of
        Inl e \<Rightarrow> Inl e
      | Inr rows \<Rightarrow>
          (case sequence (map (default_mp_batchify_fn asarray) (zip_star rows)) of
             Inl e \<Rightarrow> Inl e
           | Inr bs \<Rightarrow> Inr (BatchList bs)))"
  by (subst default_mp_batchify_fn.simps) simp

lemma default_mp_batchify_fn_Other:
  "default_mp_batchify_fn asarray (Other x # rest) =
     (case asarray (Other x # rest) of
        Inl e \<Rightarrow> Inl e
      | Inr arr \<Rightarrow> Inr (BatchArray (nd_array arr cpu_shared)))"
  by (subst default_mp_batchify_fn.simps) simp

lemmas batchify_unfold =
  default_batchify_fn_Nil default_batchify_fn_NDArray default_batchify_fn_Tuple
  default_batchify_fn_Other default_mp_batchify_fn_Nil default_mp_batchify_fn_NDArray
  default_mp_batchify_fn_Tuple default_mp_batchify_fn_Other

lemma the_ndarrays_Inr: "the_ndarrays data = Inr as \<Longrightarrow> data = map NDArray as"
  by (induction data arbitrary: as rule: the_ndarrays.induct) (auto split: sum.splits)

lemma sequence_map_sum:
  "sequence (map (map_sum id f) xs) = map_sum id (map f) (sequence xs)"
  by (induction xs) (auto split: sum.splits)

lemma stack_out_relocate:
  assumes "data = NDArray a # rest"
  shows "nd_stack_out data (nd_empty (length data # shape a) (dtype a) cpu_shared)
         = map_sum id (\<lambda>r. r\<lparr>ctx := cpu_shared\<rparr>) (nd_stack data)"
proof (cases "the_ndarrays data")
  case (Inl e)
  then show ?thesis by (simp add: nd_stack_out_def nd_stack_def)
next
  case (Inr as)
  then have d: "data = map NDArray as" by (rule the_ndarrays_Inr)
  then have "hd as = a" "length as = length data" using assms by (cases as; auto)+
  then show ?thesis using Inr by (simp add: nd_stack_out_def nd_stack_def nd_empty_def)
qed

lemma mp_is_relocated:
  "default_mp_batchify_fn asarray data
   = map_sum id (relocate cpu_shared) (default_batchify_fn asarray data)"
proof (induction asarray data rule: default_batchify_fn.induct)
  case (1 asarray data)
  show ?case
  proof (cases data)
    case Nil
    then show ?thesis by (simp add: batchify_unfold)
  next
    case (Cons d0 rest)
    show ?thesis
    proof (cases d0)
      case (NDArray a)
      show ?thesis
        using stack_out_relocate[of data a rest] Cons NDArray
        by (simp add: default_batchify_fn_NDArray default_mp_batchify_fn_NDArray
            split: sum.splits)
    next
      case (Tuple fs)
      show ?thesis
      proof (cases "sequence (map fields_of data)")
        case (Inl e)
        then show ?thesis using Cons Tuple
          by (simp add: default_batchify_fn_Tuple default_mp_batchify_fn_Tuple)
      next
        case (Inr rows)
        have "map (default_mp_batchify_fn asarray) (zip_star rows)
            = map (map_sum id (relocate cpu_shared)) (map (default_batchify_fn asarray) (zip_star rows))"
          using "1.IH"[OF Cons Tuple Inr] by (simp add: id_def)
        then have "sequence (map (default_mp_batchify_fn asarray) (zip_star rows))
            = map_sum id (map (relocate cpu_shared)) (sequence (map (default_batchify_fn asarray) (zip_star rows)))"
          by (simp only: sequence_map_sum)
        then show ?thesis using Cons Tuple Inr
          by (simp add: default_batchify_fn_Tuple default_mp_batchify_fn_Tuple split: sum.splits)
      qed
    next
      case (Other x)
      then show ?thesis using Cons
        by (simp add: default_batchify_fn_Other default_mp_batchify_fn_Other
            nd_array_def split: sum.splits)
    qed
  qed
qed

lemma same_values_relocate: "same_values b (relocate c b)"
  by (induction b) (auto simp: list_all2_conv_all_nth)

lemma on_device_relocate: "on_device c (relocate c b)"
  by (induction b) (auto simp: list_all_iff)

lemma sequence_all:
  "sequence (map f xs) = Inr ys \<Longrightarrow> (\<And>x y. x \<in> set xs \<Longrightarrow> f x = Inr y \<Longrightarrow> P y) \<Longrightarrow> list_all P ys"
proof (induction xs arbitrary: ys)
  case Nil
  then show ?case by simp
next
  case (Cons a xs)
  from Cons.prems(1) obtain v vs where v: "f a = Inr v" and vs: "sequence (map f xs) = Inr vs"
    and ys: "ys = v # vs" by (auto split: sum.splits)
  have "P v" using Cons.prems(2)[of a v] v by simp
  moreover have "list_all P vs" by (rule Cons.IH[OF vs]) (use Cons.prems(2) in auto)
  ultimately show ?case using ys by simp
qed

lemma default_on_cpu:
  "default_batchify_fn asarray data = Inr b \<Longrightarrow> on_device cpu b"
proof (induction asarray data arbitrary: b rule: default_batchify_fn.induct)
  case (1 asarray data)
  show ?case
  proof (cases data)
    case Nil
    then show ?thesis using "1.prems" by (simp add: batchify_unfold)
  next
    case (Cons d0 rest)
    show ?thesis
    proof (cases d0)
      case (NDArray a)
      then show ?thesis using "1.prems" Cons
        by (auto simp: default_batchify_fn_NDArray nd_stack_def split: sum.splits if_splits)
    next
      case (Tuple fs)
      from "1.prems" Cons Tuple obtain rows bs where
        rows: "sequence (map fields_of data) = Inr rows"
        and bs: "sequence (map (default_batchify_fn asarray) (zip_star rows)) = Inr bs"
        and b: "b = BatchList bs"
        by (auto simp: default_batchify_fn_Tuple split: sum.splits)
      have "list_all (on_device cpu) bs"
        using sequence_all[OF bs] "1.IH"[OF Cons Tuple rows] by blast
      then show ?thesis using b by simp
    next
      case (Other x)
      then show ?thesis using "1.prems" Cons
        by (auto simp: default_batchify_fn_Other nd_array_def split: sum.splits)
    qed
  qed
qed

lemma zip_star_2x2: "zip_star [[a, b], [c, d]] = [[a, c], [b, d]]"
  by (simp add: zip_star_def upt_rec[of 0] upt_rec[of 1] upt_rec[of 2])

text \<open>
  Claim C7 (transport fidelity). For every non-empty list of samples the shared-memory
  collate \<open>default_mp_batchify_fn\<close> and the direct collate \<open>default_batchify_fn\<close> raise the
  same exception or return batches with the same nesting, shapes, element types and
  elements; the direct batch lives in host memory, the other one in shared memory.
\<close>

theorem transport_fidelity:
  assumes "data \<noteq> []"
  shows "(\<forall>e. default_batchify_fn asarray data = Inl e \<longleftrightarrow> default_mp_batchify_fn asarray data = Inl e)
       \<and> (\<forall>b. default_batchify_fn asarray data = Inr b \<longrightarrow>
             (\<exists>b'. default_mp_batchify_fn asarray data = Inr b' \<and> same_values b b'
                  \<and> on_device cpu b \<and> on_device cpu_shared b'))
       \<and> (\<forall>b'. default_mp_batchify_fn asarray data = Inr b' \<longrightarrow>
             (\<exists>b. default_batchify_fn asarray data = Inr b \<and> same_values b b'))"
proof (cases "default_batchify_fn asarray data")
  case (Inl e)
  then show ?thesis by (simp add: mp_is_relocated)
next
  case (Inr b)
  then show ?thesis
    by (simp add: mp_is_relocated same_values_relocate on_device_relocate default_on_cpu)
qed

theorem transport_fidelity_witness:
  "[Tuple [NDArray image0, Other (7::int)], Tuple [NDArray image1, Other 9]] \<noteq> []
   \<and> default_batchify_fn asarray_int64
        [Tuple [NDArray image0, Other 7], Tuple [NDArray image1, Other 9]]
     = Inr (BatchList
         [BatchArray \<lparr>shape = [2, 2], dtype = ''float32'', ctx = cpu, elems = [1, 2, 3, 4]\<rparr>,
          BatchArray \<lparr>shape = [2], dtype = ''int64'', ctx = cpu, elems = [7, 9]\<rparr>])
   \<and> (\<exists>b'. default_mp_batchify_fn asarray_int64
        [Tuple [NDArray image0, Other 7], Tuple [NDArray image1, Other 9]] = Inr b'
       \<and> same_values (BatchList
         [BatchArray \<lparr>shape = [2, 2], dtype = ''float32'', ctx = cpu, elems = [1, 2, 3, 4]\<rparr>,
          BatchArray \<lparr>shape = [2], dtype = ''int64'', ctx = cpu, elems = [7, 9]\<rparr>]) b'
       \<and> on_device cpu_shared b')"
proof -
  let ?data = "[Tuple [NDArray image0, Other 7], Tuple [NDArray image1, Other (9::int)]]"
  have ne: "?data \<noteq> []" by simp
  have d: "default_batchify_fn asarray_int64 ?data
     = Inr (BatchList
         [BatchArray \<lparr>shape = [2, 2], dtype = ''float32'', ctx = cpu, elems = [1, 2, 3, 4]\<rparr>,
          BatchArray \<lparr>shape = [2], dtype = ''int64'', ctx = cpu, elems = [7, 9]\<rparr>])"
    by (simp add: batchify_unfold zip_star_2x2 nd_stack_def stackable_def nd_array_def
        asarray_int64_def image0_def image1_def)
  from transport_fidelity[OF ne, of asarray_int64] d show ?thesis by auto
qed

section \<open>The structure of a collated batch\<close>


text \<open>
  Two samples have the same structure: the same nesting of tuples with the same arity,
  tensors of one shape and element type at corresponding positions.
\<close>

fun same_struct :: "('v, 'o) sample \<Rightarrow> ('v, 'o) sample \<Rightarrow> bool" where
  "same_struct (NDArray a) (NDArray b) = (shape a = shape b \<and> dtype a = dtype b)"
| "same_struct (Tuple fs) (Tuple gs) = list_all2 same_struct fs gs"
| "same_struct (Other x) (Other y) = True"
| "same_struct (NDArray a) (Tuple gs) = False"
| "same_struct (NDArray a) (Other y) = False"
| "same_struct (Tuple fs) (NDArray b) = False"
| "same_struct (Tuple fs) (Other y) = False"
| "same_struct (Other x) (NDArray b) = False"
| "same_struct (Other x) (Tuple gs) = False"

text \<open>
  A batch mirrors a sample for batch size \<open>n\<close>: a tuple of fields becomes a list of as
  many batches in the same order, a tensor of shape \<open>s\<close> becomes a tensor of shape
  \<open>n # s\<close> with the same element type, any other leaf becomes a tensor.
\<close>

fun mirrors :: "nat \<Rightarrow> ('v, 'o) sample \<Rightarrow> 'v batch \<Rightarrow> bool" where
  "mirrors n (NDArray a) (BatchArray b) = (shape b = n # shape a \<and> dtype b = dtype a)"
| "mirrors n (Tuple fs) (BatchList bs) = list_all2 (mirrors n) fs bs"
| "mirrors n (Other x) (BatchArray b) = True"
| "mirrors n (NDArray a) (BatchList bs) = False"
| "mirrors n (Tuple fs) (BatchArray b) = False"
| "mirrors n (Other x) (BatchList bs) = False"

text \<open>All samples of the list have the structure of the first one.\<close>

definition homogeneous :: "('v, 'o) sample list \<Rightarrow> bool" where
  "homogeneous data = list_all (same_struct (hd data)) data"

lemma fold_min_const:
  "\<forall>x \<in> set xs. x = (m::nat) \<Longrightarrow> fold min xs m = m"
  by (induction xs) auto

lemma zip_star_rect:
  assumes "\<forall>r \<in> set rows. length r = m" "rows \<noteq> []"
  shows "zip_star rows = map (\<lambda>j. map (\<lambda>row. row ! j) rows) [0 ..< m]"
proof -
  obtain r rs where rows: "rows = r # rs" using assms(2) by (cases rows) auto
  have "fold min (map length rs) (length r) = m"
    using assms(1) rows fold_min_const[of "map length rs" m] by auto
  then show ?thesis using rows by (simp add: zip_star_def)
qed

lemma sequence_map_fields_Tuple: "sequence (map fields_of (map Tuple rows)) = Inr rows"
  by (induction rows) auto

lemma the_ndarrays_map: "the_ndarrays (map NDArray as) = Inr as"
  by (induction as) auto

lemma all_ndarrays:
  "list_all (same_struct (NDArray a)) xs \<Longrightarrow>
   \<exists>as. the_ndarrays xs = Inr as \<and> length as = length xs
      \<and> list_all (\<lambda>b. shape b = shape a \<and> dtype b = dtype a) as"
proof (induction xs)
  case Nil
  then show ?case by simp
next
  case (Cons x xs)
  from Cons.prems have tl: "list_all (same_struct (NDArray a)) xs" by simp
  from Cons.IH[OF tl] obtain as where as: "the_ndarrays xs = Inr as" "length as = length xs"
    "list_all (\<lambda>b. shape b = shape a \<and> dtype b = dtype a) as" by blast
  from Cons.prems have hx: "same_struct (NDArray a) x" by simp
  then obtain b where b: "x = NDArray b" by (cases x) simp_all
  with hx have sb: "shape b = shape a \<and> dtype b = dtype a" by simp
  have "the_ndarrays (x # xs) = Inr (b # as) \<and> length (b # as) = length (x # xs)
      \<and> list_all (\<lambda>b. shape b = shape a \<and> dtype b = dtype a) (b # as)"
    using sb as b by simp
  then show ?case by (rule exI[of _ "b # as"])
qed

lemma all_tuples:
  "list_all (same_struct (Tuple fs)) xs \<Longrightarrow>
   \<exists>rows. xs = map Tuple rows \<and> list_all (list_all2 same_struct fs) rows"
proof (induction xs)
  case Nil
  then show ?case by simp
next
  case (Cons x xs)
  from Cons.prems have tl: "list_all (same_struct (Tuple fs)) xs" by simp
  from Cons.IH[OF tl] obtain rows where rows: "xs = map Tuple rows"
    "list_all (list_all2 same_struct fs) rows" by blast
  from Cons.prems have hx: "same_struct (Tuple fs) x" by simp
  then obtain r where r: "x = Tuple r" by (cases x) simp_all
  with hx have sr: "list_all2 same_struct fs r" by simp
  have "x # xs = map Tuple (r # rows) \<and> list_all (list_all2 same_struct fs) (r # rows)"
    using r rows sr by simp
  then show ?case by (rule exI[of _ "r # rows"])
qed

lemma column_homogeneous:
  assumes "list_all (list_all2 same_struct fs) rows" "hd rows = fs" "rows \<noteq> []" "j < length fs"
  shows "homogeneous (map (\<lambda>row. row ! j) rows)"
proof -
  obtain r rs where rr: "rows = r # rs" using assms(3) by (cases rows) blast+
  then have h: "hd (map (\<lambda>row. row ! j) rows) = fs ! j" using assms(2) by simp
  have a: "\<forall>r \<in> set rows. same_struct (fs ! j) (r ! j)"
  proof
    fix r assume "r \<in> set rows"
    then have "list_all2 same_struct fs r" using assms(1) by (simp add: list_all_iff)
    then show "same_struct (fs ! j) (r ! j)" using assms(4) by (rule list_all2_nthD)
  qed
  have "list_all (same_struct (fs ! j)) (map (\<lambda>row. row ! j) rows)"
    using a by (simp add: list_all_iff)
  then show ?thesis unfolding homogeneous_def h .
qed


lemma sequence_nth:
  assumes "sequence (map f xs) = Inr ys"
  shows "length ys = length xs \<and> (\<forall>i < length xs. f (xs ! i) = Inr (ys ! i))"
proof -
  have m: "map f xs = map Inr ys" using assms by (rule sequence_Inr_D)
  then have l: "length ys = length xs" by (metis length_map)
  have "\<forall>i < length xs. f (xs ! i) = Inr (ys ! i)"
  proof (intro allI impI)
    fix i assume i: "i < length xs"
    then have "f (xs ! i) = map f xs ! i" by simp
    also have "\<dots> = map Inr ys ! i" by (simp only: m)
    also have "\<dots> = Inr (ys ! i)" using i l by simp
    finally show "f (xs ! i) = Inr (ys ! i)" .
  qed
  with l show ?thesis by simp
qed

lemma default_batchify_fn_mirrors:
  "data \<noteq> [] \<Longrightarrow> homogeneous data \<Longrightarrow> default_batchify_fn asarray data = Inr b
   \<Longrightarrow> mirrors (length data) (hd data) b"
proof (induction asarray data arbitrary: b rule: default_batchify_fn.induct)
  case (1 asarray data)
  from "1.prems"(1) obtain d0 rest where Cons: "data = d0 # rest" by (cases data) blast+
  have hom: "list_all (same_struct d0) data" using "1.prems"(2) Cons by (simp add: homogeneous_def)
  show ?case
  proof (cases d0)
    case (NDArray a)
    from hom NDArray obtain as where as: "the_ndarrays data = Inr as" "length as = length data"
      using all_ndarrays[of a data] by blast
    have "hd as = a" using as Cons NDArray by (cases as) (auto split: sum.splits)
    then show ?thesis using "1.prems"(3) Cons NDArray as
      by (auto simp: default_batchify_fn_NDArray nd_stack_def split: sum.splits if_splits)
  next
    case (Tuple fs)
    from hom Tuple obtain rows where rows: "data = map Tuple rows"
      "list_all (list_all2 same_struct fs) rows"
      using all_tuples[of fs data] by blast
    have hdrows: "hd rows = fs" "rows \<noteq> []" using rows(1) Cons Tuple by (cases rows; simp)+
    have seq: "sequence (map fields_of data) = Inr rows"
      unfolding rows(1) by (rule sequence_map_fields_Tuple)
    have rect: "\<forall>r \<in> set rows. length r = length fs"
    proof
      fix r assume "r \<in> set rows"
      then have "list_all2 same_struct fs r" using rows(2) by (simp add: list_all_iff)
      then show "length r = length fs" by (simp add: list_all2_lengthD)
    qed
    have zs: "zip_star rows = map (\<lambda>j. map (\<lambda>row. row ! j) rows) [0 ..< length fs]"
      using zip_star_rect[OF rect hdrows(2)] .
    from "1.prems"(3) obtain bs where
      bs: "sequence (map (default_batchify_fn asarray) (zip_star rows)) = Inr bs"
      and b: "b = BatchList bs"
      using Cons Tuple seq by (auto simp: default_batchify_fn_Tuple split: sum.splits)
    from sequence_nth[OF bs] have lbs: "length bs = length fs"
      and nth: "\<forall>j < length fs. default_batchify_fn asarray (zip_star rows ! j) = Inr (bs ! j)"
      by (simp_all add: zs)
    have "\<forall>j < length fs. mirrors (length data) (fs ! j) (bs ! j)"
    proof (intro allI impI)
      fix j assume j: "j < length fs"
      let ?col = "map (\<lambda>row. row ! j) rows"
      have col: "zip_star rows ! j = ?col" using j by (simp add: zs)
      have "j < length (zip_star rows)" using j by (simp add: zs)
      then have "zip_star rows ! j \<in> set (zip_star rows)" by (rule nth_mem)
      then have mem: "?col \<in> set (zip_star rows)" by (simp only: col)
      have ne: "?col \<noteq> []" using hdrows(2) by simp
      have hc: "homogeneous ?col" using column_homogeneous[OF rows(2) hdrows j] .
      have r: "default_batchify_fn asarray ?col = Inr (bs ! j)"
        using nth[rule_format, OF j] unfolding col .
      have "mirrors (length ?col) (hd ?col) (bs ! j)"
        using "1.IH"[OF Cons Tuple seq mem ne hc r] .
      moreover have "hd ?col = fs ! j" using hdrows by (cases rows) auto
      moreover have "length ?col = length data" using rows(1) by simp
      ultimately show "mirrors (length data) (fs ! j) (bs ! j)" by simp
    qed
    then have "list_all2 (mirrors (length data)) fs bs"
      using lbs by (simp add: list_all2_conv_all_nth)
    then show ?thesis using b Cons Tuple by simp
  next
    case (Other x)
    then show ?thesis using "1.prems"(3) Cons
      by (auto simp: default_batchify_fn_Other split: sum.splits)
  qed
qed


lemma same_struct_NDArray_all:
  "list_all (same_struct (NDArray a)) (map NDArray rest) \<Longrightarrow>
   list_all (\<lambda>b. shape b = shape a \<and> dtype b = dtype a) rest"
  by (induction rest) auto

lemma homogeneous_stackable:
  assumes "homogeneous (map NDArray as :: ('v, 'o) sample list)" "as \<noteq> []"
  shows "stackable as"
proof -
  obtain a rest where c: "as = a # rest" using assms(2) by (cases as) blast+
  have "list_all (same_struct (NDArray a)) (map NDArray rest :: ('v, 'o) sample list)"
    using assms(1) c by (simp add: homogeneous_def)
  then have "list_all (\<lambda>b. shape b = shape a \<and> dtype b = dtype a) rest"
    by (rule same_struct_NDArray_all)
  then show ?thesis using c by (simp add: stackable_def)
qed

text \<open>
  Claim C3 (structure-preserving collate), for samples of one structure. On a non-empty
  list of \<open>n\<close> samples of one structure, \<open>default_batchify_fn\<close> stacks tensor leaves into
  one tensor of shape \<open>n # leaf_shape\<close> holding the elements of the samples in order; for
  tuples it collates the \<open>j\<close>-th fields of all samples independently, for each field
  position \<open>j\<close> of the tuple in order; any other leaf is converted by \<^verbatim>\<open>np.asarray\<close> and
  \<^verbatim>\<open>nd.array\<close>; and every batch returned mirrors the nesting of the samples.
\<close>

theorem default_batchify_fn_structure:
  assumes "data \<noteq> []" and "homogeneous data"
  shows "(\<forall>as. data = map NDArray as \<longrightarrow>
            default_batchify_fn asarray data =
              Inr (BatchArray \<lparr>shape = length data # shape (hd as), dtype = dtype (hd as),
                                ctx = cpu, elems = concat (map elems as)\<rparr>))
       \<and> (\<forall>rows. data = map Tuple rows \<longrightarrow>
            default_batchify_fn asarray data =
              (case sequence (map (\<lambda>j. default_batchify_fn asarray (map (\<lambda>row. row ! j) rows))
                                  [0 ..< length (hd rows)]) of
                 Inl e \<Rightarrow> Inl e
               | Inr bs \<Rightarrow> Inr (BatchList bs)))
       \<and> (\<forall>x rest. data = Other x # rest \<longrightarrow>
            default_batchify_fn asarray data =
              (case asarray data of
                 Inl e \<Rightarrow> Inl e
               | Inr arr \<Rightarrow> Inr (BatchArray (nd_array arr cpu))))
       \<and> (\<forall>b. default_batchify_fn asarray data = Inr b \<longrightarrow> mirrors (length data) (hd data) b)"
proof (intro conjI allI impI)
  fix as assume d: "data = map NDArray as"
  then obtain a rest where c: "as = a # rest" using assms(1) by (cases as) auto
  have st: "stackable as" using homogeneous_stackable[of as] assms(2) d c by simp
  have e: "data = NDArray a # map NDArray rest" using d c by simp
  have ns: "nd_stack data = Inr \<lparr>shape = length as # shape (hd as), dtype = dtype (hd as),
                        ctx = cpu, elems = concat (map elems as)\<rparr>"
    unfolding d using st by (simp add: nd_stack_def the_ndarrays_map)
  have "default_batchify_fn asarray data =
      (case nd_stack data of Inl e \<Rightarrow> Inl e | Inr r \<Rightarrow> Inr (BatchArray r))"
    using default_batchify_fn_NDArray[of asarray a "map NDArray rest"] unfolding e[symmetric] .
  then show "default_batchify_fn asarray data =
      Inr (BatchArray \<lparr>shape = length data # shape (hd as), dtype = dtype (hd as),
                        ctx = cpu, elems = concat (map elems as)\<rparr>)"
    using ns d by simp
next
  fix rows assume d: "data = map Tuple rows"
  then obtain r rs where c: "rows = r # rs" using assms(1) by (cases rows) auto
  have "list_all (same_struct (Tuple r)) data" using assms(2) d c by (simp add: homogeneous_def)
  then have la: "\<forall>q \<in> set rows. list_all2 same_struct r q"
    unfolding d by (simp add: list_all_iff)
  have rect: "\<forall>q \<in> set rows. length q = length r"
  proof
    fix q assume "q \<in> set rows"
    then have "list_all2 same_struct r q" using la by blast
    then show "length q = length r" by (simp add: list_all2_lengthD)
  qed
  have ne: "rows \<noteq> []" using c by simp
  have zs: "zip_star rows = map (\<lambda>j. map (\<lambda>row. row ! j) rows) [0 ..< length r]"
    using zip_star_rect[OF rect ne] .
  have e: "data = Tuple r # map Tuple rs" using d c by simp
  have seq: "sequence (map fields_of data) = Inr rows"
    unfolding d by (rule sequence_map_fields_Tuple)
  have hl: "length (hd rows) = length r" using c by simp
  have mm: "map (default_batchify_fn asarray) (zip_star rows) =
      map (\<lambda>j. default_batchify_fn asarray (map (\<lambda>row. row ! j) rows)) [0 ..< length (hd rows)]"
    unfolding zs hl by (simp add: comp_def)
  have "default_batchify_fn asarray data =
      (case sequence (map fields_of data) of
         Inl e \<Rightarrow> Inl e
       | Inr rows \<Rightarrow>
          (case sequence (map (default_batchify_fn asarray) (zip_star rows)) of
             Inl e \<Rightarrow> Inl e
           | Inr bs \<Rightarrow> Inr (BatchList bs)))"
    using default_batchify_fn_Tuple[of asarray r "map Tuple rs"] unfolding e[symmetric] .
  then show "default_batchify_fn asarray data =
      (case sequence (map (\<lambda>j. default_batchify_fn asarray (map (\<lambda>row. row ! j) rows))
                          [0 ..< length (hd rows)]) of
         Inl e \<Rightarrow> Inl e
       | Inr bs \<Rightarrow> Inr (BatchList bs))"
    by (simp add: seq mm)
next
  fix x rest assume "data = Other x # rest"
  then show "default_batchify_fn asarray data =
      (case asarray data of
         Inl e \<Rightarrow> Inl e
       | Inr arr \<Rightarrow> Inr (BatchArray (nd_array arr cpu)))"
    by (simp add: default_batchify_fn_Other)
next
  fix b assume "default_batchify_fn asarray data = Inr b"
  then show "mirrors (length data) (hd data) b"
    using default_batchify_fn_mirrors[OF assms] by simp
qed

theorem default_batchify_fn_structure_witness:
  "[Tuple [NDArray image0, Other (7::int)], Tuple [NDArray image1, Other 9]] \<noteq> []
   \<and> homogeneous [Tuple [NDArray image0, Other (7::int)], Tuple [NDArray image1, Other 9]]
   \<and> default_batchify_fn asarray_int64
        [Tuple [NDArray image0, Other 7], Tuple [NDArray image1, Other 9]]
     = Inr (BatchList
         [BatchArray \<lparr>shape = [2, 2], dtype = ''float32'', ctx = cpu, elems = [1, 2, 3, 4]\<rparr>,
          BatchArray \<lparr>shape = [2], dtype = ''int64'', ctx = cpu, elems = [7, 9]\<rparr>])
   \<and> mirrors 2 (Tuple [NDArray image0, Other (7::int)])
        (BatchList
         [BatchArray \<lparr>shape = [2, 2], dtype = ''float32'', ctx = cpu, elems = [1, 2, 3, 4]\<rparr>,
          BatchArray \<lparr>shape = [2], dtype = ''int64'', ctx = cpu, elems = [7, 9]\<rparr>])"
proof -
  let ?data = "[Tuple [NDArray image0, Other 7], Tuple [NDArray image1, Other (9::int)]]"
  have ne: "?data \<noteq> []" by simp
  have hom: "homogeneous ?data" by (simp add: homogeneous_def image0_def image1_def)
  note s = default_batchify_fn_structure[OF ne hom, of asarray_int64]
  have t: "?data = map Tuple [[NDArray image0, Other 7], [NDArray image1, Other 9]]" by simp
  have "default_batchify_fn asarray_int64 ?data =
      (case sequence (map (\<lambda>j. default_batchify_fn asarray_int64
           (map (\<lambda>row. row ! j) [[NDArray image0, Other 7], [NDArray image1, Other 9]]))
           [0 ..< length (hd [[NDArray image0, Other 7], [NDArray image1, Other (9::int)]])]) of
         Inl e \<Rightarrow> Inl e
       | Inr bs \<Rightarrow> Inr (BatchList bs))"
    by (rule s[THEN conjunct2, THEN conjunct1, rule_format, OF t])
  then have d: "default_batchify_fn asarray_int64 ?data
     = Inr (BatchList
         [BatchArray \<lparr>shape = [2, 2], dtype = ''float32'', ctx = cpu, elems = [1, 2, 3, 4]\<rparr>,
          BatchArray \<lparr>shape = [2], dtype = ''int64'', ctx = cpu, elems = [7, 9]\<rparr>])"
    by (simp add: upt_rec[of 0] upt_rec[of 1] upt_rec[of 2] default_batchify_fn_NDArray
        default_batchify_fn_Other nd_stack_def stackable_def nd_array_def asarray_int64_def
        image0_def image1_def)
  have "mirrors (length ?data) (hd ?data) (BatchList
         [BatchArray \<lparr>shape = [2, 2], dtype = ''float32'', ctx = cpu, elems = [1, 2, 3, 4]\<rparr>,
          BatchArray \<lparr>shape = [2], dtype = ''int64'', ctx = cpu, elems = [7, 9]\<rparr>])"
    by (rule s[THEN conjunct2, THEN conjunct2, THEN conjunct2, rule_format, OF d])
  then have m: "mirrors 2 (Tuple [NDArray image0, Other (7::int)]) (BatchList
         [BatchArray \<lparr>shape = [2, 2], dtype = ''float32'', ctx = cpu, elems = [1, 2, 3, 4]\<rparr>,
          BatchArray \<lparr>shape = [2], dtype = ''int64'', ctx = cpu, elems = [7, 9]\<rparr>])"
    by (simp only: list.sel list.size One_nat_def add_Suc_right add_0_right numeral_2_eq_2)
  show ?thesis by (intro conjI ne hom d m)
qed

text \<open>A third tensor, of another shape than \<open>image0\<close>.\<close>

definition image2 :: "int ndarray" where
  "image2 = \<lparr>shape = [3], dtype = ''float32'', ctx = cpu, elems = [5, 6, 7]\<rparr>"

text \<open>
  Claim C3 without the condition that the samples have one structure. \<^verbatim>\<open>zip(*data)\<close> stops at
  the shortest tuple: from the two samples \<^verbatim>\<open>(1, 2)\<close> and \<^verbatim>\<open>(3,)\<close> the collate function
  returns a list of one field, the tensor \<^verbatim>\<open>[1, 3]\<close>. The second field of the first sample is
  dropped without an error, so the arity of the sample is not preserved and the batch does
  not mirror it. Two tensors of different shapes are not stacked into one tensor of shape
  \<open>[2] + leaf_shape\<close> either: \<^verbatim>\<open>nd.stack\<close> fails.
\<close>

theorem default_batchify_fn_ragged_tuples:
  "default_batchify_fn asarray_int64 [Tuple [Other 1, Other 2], Tuple [Other 3]]
     = Inr (BatchList [BatchArray \<lparr>shape = [2], dtype = ''int64'', ctx = cpu, elems = [1, 3]\<rparr>])
   \<and> \<not> mirrors 2 (Tuple [Other 1, Other 2] :: (int, int) sample)
          (BatchList [BatchArray \<lparr>shape = [2], dtype = ''int64'', ctx = cpu, elems = [1, 3]\<rparr>])
   \<and> default_batchify_fn asarray_int64 [NDArray image0, NDArray image2] = Inl MXNetError"
proof -
  have z: "zip_star [[Other 1, Other (2::int)], [Other 3 :: (int, int) sample]] = [[Other 1, Other 3]]"
    by (simp add: zip_star_def upt_rec)
  have a: "default_batchify_fn asarray_int64 [Tuple [Other 1, Other 2], Tuple [Other 3]]
     = Inr (BatchList [BatchArray \<lparr>shape = [2], dtype = ''int64'', ctx = cpu, elems = [1, 3]\<rparr>])"
    by (simp add: default_batchify_fn_Tuple z default_batchify_fn_Other asarray_int64_def
        nd_array_def)
  have b: "\<not> mirrors 2 (Tuple [Other 1, Other 2] :: (int, int) sample)
          (BatchList [BatchArray \<lparr>shape = [2], dtype = ''int64'', ctx = cpu, elems = [1, 3]\<rparr>])"
    by simp
  have c: "default_batchify_fn asarray_int64 [NDArray image0, NDArray image2] = Inl MXNetError"
    by (simp add: default_batchify_fn_NDArray nd_stack_def stackable_def image0_def image2_def)
  show ?thesis by (intro conjI a b c)
qed


section \<open>Datasets and samplers\<close>

text \<open>
  A dataset is any object with \<^verbatim>\<open>__getitem__\<close> and \<^verbatim>\<open>__len__\<close>; \<^verbatim>\<open>dataset[i]\<close> may raise.
\<close>

record ('v, 'o) dataset =
  getitem :: "nat \<Rightarrow> error + ('v, 'o) sample"
  dataset_len :: nat

text \<open>A Python list used as a dataset: an index past the end raises \<open>IndexError\<close>.\<close>

definition list_dataset :: "('v, 'o) sample list \<Rightarrow> ('v, 'o) dataset" where
  "list_dataset xs =
     \<lparr>getitem = (\<lambda>i. if i < length xs then Inr (xs ! i) else Inl IndexError),
      dataset_len = length xs\<rparr>"

text \<open>
  Modelled from the spec: the samplers of \<^verbatim>\<open>sampler.py\<close>, which is not part of
  \<^verbatim>\<open>dataloader.py\<close>. A sampler yields a finite sequence of indices and has a length;
  \<open>UserSampler\<close> stands for a sampler object passed by the caller. The indices a sampler
  yields in one pass are an argument \<open>idxs\<close> of the iteration below.
\<close>

datatype sampler = SequentialSampler nat | RandomSampler nat | UserSampler nat

fun sampler_len :: "sampler \<Rightarrow> nat" where
  "sampler_len (SequentialSampler n) = n"
| "sampler_len (RandomSampler n) = n"
| "sampler_len (UserSampler n) = n"

text \<open>
  The \<^verbatim>\<open>last_batch\<close> policy, one of \<^verbatim>\<open>'keep'\<close>, \<^verbatim>\<open>'discard'\<close>, \<^verbatim>\<open>'rollover'\<close> (the docstring of
  \<^verbatim>\<open>DataLoader\<close>). All three are non-empty strings, hence true in a condition.
\<close>

datatype last_batch = keep | discard | rollover

text \<open>
  Modelled from the spec: \<^verbatim>\<open>BatchSampler\<close> of \<^verbatim>\<open>sampler.py\<close>. The spec and the docstring of
  \<^verbatim>\<open>DataLoader\<close>: it yields the indices of its sampler in batches of \<open>batch_size\<close>; an
  incomplete last batch is returned (keep), dropped (discard) or "rolled over to the next
  epoch" (rollover: "the leftover item from pass k appears as the first element of pass
  k+1's first batch"), which makes the sampler stateful: \<open>bs_prev\<close> holds the leftover.
\<close>

record BatchSampler =
  bs_sampler :: sampler
  bs_batch_size :: nat
  bs_last_batch :: last_batch
  bs_prev :: "nat list"

definition BatchSampler_init :: "sampler \<Rightarrow> nat \<Rightarrow> last_batch \<Rightarrow> BatchSampler" where
  "BatchSampler_init s b p =
     \<lparr>bs_sampler = s, bs_batch_size = b, bs_last_batch = p, bs_prev = []\<rparr>"

text \<open>
  Filling batches: \<open>cur\<close> is the batch being filled; the result is the list of full batches
  and the incomplete batch left at the end.
\<close>

fun chunks :: "nat \<Rightarrow> nat list \<Rightarrow> nat list \<Rightarrow> nat list list \<times> nat list" where
  "chunks b cur [] = ([], cur)"
| "chunks b cur (i # idxs) =
     (if length (cur @ [i]) = b
      then (case chunks b [] idxs of (full, rest) \<Rightarrow> ((cur @ [i]) # full, rest))
      else chunks b (cur @ [i]) idxs)"

text \<open>One pass over the batch sampler: the batches it yields and its state afterwards.\<close>

definition BatchSampler_iter :: "BatchSampler \<Rightarrow> nat list \<Rightarrow> nat list list \<times> BatchSampler" where
  "BatchSampler_iter bs idxs =
     (case chunks (bs_batch_size bs) (bs_prev bs) idxs of
        (full, rest) \<Rightarrow>
          if rest = [] then (full, bs\<lparr>bs_prev := []\<rparr>)
          else (case bs_last_batch bs of
                  keep \<Rightarrow> (full @ [rest], bs\<lparr>bs_prev := []\<rparr>)
                | discard \<Rightarrow> (full, bs\<lparr>bs_prev := []\<rparr>)
                | rollover \<Rightarrow> (full, bs\<lparr>bs_prev := rest\<rparr>)))"

text \<open>
  Modelled from the spec: "\<open>length()\<close> = number of index-lists it will yield", counted on
  an index sequence of the sampler's length from the current state of the batch sampler.
\<close>

definition BatchSampler_len :: "BatchSampler \<Rightarrow> nat" where
  "BatchSampler_len bs =
     length (fst (BatchSampler_iter bs [0 ..< sampler_len (bs_sampler bs)]))"

section \<open>DataLoader: construction\<close>

record ('v, 'o) DataLoader =
  dl_dataset :: "('v, 'o) dataset"
  dl_batch_sampler :: BatchSampler
  dl_num_workers :: int
  dl_batchify_fn :: "('v, 'o) sample list \<Rightarrow> error + 'v batch"

text \<open>
  \<^verbatim>\<open>DataLoader.__init__\<close>. An absent argument (\<^verbatim>\<open>None\<close>) is \<open>None\<close>; \<open>shuffle\<close> is a truth
  value.
\<close>

definition DataLoader_init ::
  "('v, 'o) np_asarray \<Rightarrow> ('v, 'o) dataset \<Rightarrow> nat option \<Rightarrow> bool \<Rightarrow> sampler option \<Rightarrow>
   last_batch option \<Rightarrow> BatchSampler option \<Rightarrow>
   (('v, 'o) sample list \<Rightarrow> error + 'v batch) option \<Rightarrow> int \<Rightarrow> error + ('v, 'o) DataLoader" where
  "DataLoader_init asarray dataset batch_size shuffle sampler last_batch batch_sampler
     batchify_fn num_workers =
     (case
        (case batch_sampler of
           None \<Rightarrow>
             (case batch_size of
                None \<Rightarrow> Inl (ValueError
                  ''batch_size must be specified unless batch_sampler is specified'')
              | Some bsz \<Rightarrow>
                  (case
                     (case sampler of
                        None \<Rightarrow>
                          Inr (if shuffle then RandomSampler (dataset_len dataset)
                               else SequentialSampler (dataset_len dataset))
                      | Some s \<Rightarrow>
                          if shuffle
                          then Inl (ValueError
                            ''shuffle must not be specified if sampler is specified'')
                          else Inr s) of
                     Inl e \<Rightarrow> Inl e
                   | Inr s \<Rightarrow>
                       Inr (BatchSampler_init s bsz
                              (case last_batch of None \<Rightarrow> keep | Some p \<Rightarrow> p))))
         | Some bs \<Rightarrow>
             if batch_size \<noteq> None \<or> shuffle \<or> sampler \<noteq> None \<or> last_batch \<noteq> None
             then Inl (ValueError
               ''batch_size, shuffle, sampler and last_batch must not be specified if batch_sampler is specified.'')
             else Inr bs) of
        Inl e \<Rightarrow> Inl e
      | Inr bs \<Rightarrow>
          Inr \<lparr>dl_dataset = dataset, dl_batch_sampler = bs, dl_num_workers = num_workers,
               dl_batchify_fn =
                 (case batchify_fn of
                    None \<Rightarrow> if num_workers > 0 then default_mp_batchify_fn asarray
                            else default_batchify_fn asarray
                  | Some f \<Rightarrow> f)\<rparr>)"

text \<open>\<^verbatim>\<open>DataLoader.__len__\<close>.\<close>

definition DataLoader_len :: "('v, 'o) DataLoader \<Rightarrow> nat" where
  "DataLoader_len dl = BatchSampler_len (dl_batch_sampler dl)"

text \<open>
  Claim C6 (configuration conflicts). Construction raises a \<open>ValueError\<close> exactly when
  neither \<open>batch_size\<close> nor \<open>batch_sampler\<close> is given, or \<open>shuffle\<close> is set together with a
  sampler, or \<open>batch_sampler\<close> is given together with one of \<open>batch_size\<close>, \<open>shuffle\<close>,
  \<open>sampler\<close>, \<open>last_batch\<close>; in every other configuration it returns a loader.
\<close>

theorem init_raises_iff_conflict:
  "((\<exists>msg. DataLoader_init asarray dataset batch_size shuffle sampler last_batch batch_sampler
            batchify_fn num_workers = Inl (ValueError msg))
    \<longleftrightarrow> (batch_sampler = None \<and> batch_size = None)
        \<or> (shuffle \<and> sampler \<noteq> None)
        \<or> (batch_sampler \<noteq> None \<and>
             (batch_size \<noteq> None \<or> shuffle \<or> sampler \<noteq> None \<or> last_batch \<noteq> None)))
   \<and> ((\<exists>dl. DataLoader_init asarray dataset batch_size shuffle sampler last_batch batch_sampler
            batchify_fn num_workers = Inr dl)
    \<longleftrightarrow> \<not> ((batch_sampler = None \<and> batch_size = None)
        \<or> (shuffle \<and> sampler \<noteq> None)
        \<or> (batch_sampler \<noteq> None \<and>
             (batch_size \<noteq> None \<or> shuffle \<or> sampler \<noteq> None \<or> last_batch \<noteq> None))))"
  by (auto simp: DataLoader_init_def split: option.splits sum.splits if_splits)

lemma init_error_is_ValueError:
  "DataLoader_init asarray dataset batch_size shuffle sampler last_batch batch_sampler
            batchify_fn num_workers = Inl e \<Longrightarrow> \<exists>msg. e = ValueError msg"
  by (auto simp: DataLoader_init_def split: option.splits sum.splits if_splits)

lemma chunks_spec:
  "chunks b cur idxs = (full, rest) \<Longrightarrow> length cur < b \<Longrightarrow>
   concat full @ rest = cur @ idxs \<and> (\<forall>x \<in> set full. length x = b) \<and> length rest < b"
proof (induction b cur idxs arbitrary: full rest rule: chunks.induct)
  case (1 b cur)
  then show ?case by simp
next
  case (2 b cur i idxs)
  show ?case
  proof (cases "length (cur @ [i]) = b")
    case True
    obtain f r where fr: "chunks b [] idxs = (f, r)" by (cases "chunks b [] idxs") auto
    have b0: "length ([]::nat list) < b" using True by auto
    from "2.IH"(1)[OF True fr b0] have ih: "concat f @ r = idxs" "\<forall>x \<in> set f. length x = b" "length r < b"
      by auto
    from "2.prems"(1) True fr have "full = (cur @ [i]) # f" "rest = r" by auto
    then show ?thesis using ih True by auto
  next
    case False
    then have lt: "length (cur @ [i]) < b" using "2.prems"(2) by auto
    from "2.prems"(1) False have "chunks b (cur @ [i]) idxs = (full, rest)" by simp
    from "2.IH"(2)[OF False this lt] show ?thesis by simp
  qed
qed

lemma BatchSampler_keep_10_3:
  "fst (BatchSampler_iter (BatchSampler_init (SequentialSampler 10) 3 keep) [0..<10])
   = [[0,1,2],[3,4,5],[6,7,8],[9]]"
  by (simp add: BatchSampler_iter_def BatchSampler_init_def upt_rec)

lemma BatchSampler_discard_10_3:
  "fst (BatchSampler_iter (BatchSampler_init (SequentialSampler 10) 3 discard) [0..<10])
   = [[0,1,2],[3,4,5],[6,7,8]]"
  by (simp add: BatchSampler_iter_def BatchSampler_init_def upt_rec)


lemma length_concat_uniform:
  "\<forall>x \<in> set xss. length x = b \<Longrightarrow> length (concat xss) = b * length xss"
  by (induction xss) auto

lemma chunks_rest:
  assumes "chunks b [] idxs = (full, rest)" "0 < b"
  shows "concat full @ rest = idxs \<and> length rest = length idxs mod b
       \<and> rest = drop (length idxs - length idxs mod b) idxs"
proof -
  from chunks_spec[OF assms(1)] assms(2)
  have c: "concat full @ rest = idxs" and u: "\<forall>x \<in> set full. length x = b" and r: "length rest < b"
    by auto
  have l: "length idxs = b * length full + length rest"
    using c length_concat_uniform[OF u] by (metis length_append)
  then have m: "length rest = length idxs mod b" using r by simp
  have "length idxs - length rest = length (concat full)" using c by (metis add_diff_cancel_right' length_append)
  then have "drop (length idxs - length rest) idxs = rest" using c by (metis append_eq_conv_conj)
  then show ?thesis using c m by simp
qed

text \<open>
  Claim C9 (default policy). Without \<open>batch_sampler\<close> and without \<open>last_batch\<close> the loader
  builds its batch sampler with the policy keep; when the number of indices is not a
  multiple of the batch size, the last batch yielded is the trailing partial batch, every
  index is yielded and nothing is rolled over.
\<close>

theorem default_last_batch_keep:
  assumes "DataLoader_init asarray dataset (Some b) shuffle sampler None None batchify_fn
             num_workers = Inr dl"
      and "0 < b" and "length idxs mod b \<noteq> 0"
  shows "bs_last_batch (dl_batch_sampler dl) = keep
       \<and> fst (BatchSampler_iter (dl_batch_sampler dl) idxs) \<noteq> []
       \<and> last (fst (BatchSampler_iter (dl_batch_sampler dl) idxs))
           = drop (length idxs - length idxs mod b) idxs
       \<and> length (last (fst (BatchSampler_iter (dl_batch_sampler dl) idxs))) = length idxs mod b
       \<and> concat (fst (BatchSampler_iter (dl_batch_sampler dl) idxs)) = idxs
       \<and> bs_prev (snd (BatchSampler_iter (dl_batch_sampler dl) idxs)) = []"
proof -
  from assms(1) obtain s where bs: "dl_batch_sampler dl = BatchSampler_init s b keep"
    by (auto simp: DataLoader_init_def split: option.splits sum.splits if_splits)
  obtain full rest where fr: "chunks b [] idxs = (full, rest)" by (cases "chunks b [] idxs") auto
  from chunks_rest[OF fr assms(2)] have c: "concat full @ rest = idxs"
    and m: "length rest = length idxs mod b"
    and d: "rest = drop (length idxs - length idxs mod b) idxs" by auto
  have ne: "rest \<noteq> []" using m assms(3) by auto
  have it: "BatchSampler_iter (dl_batch_sampler dl) idxs
      = (full @ [rest], (BatchSampler_init s b keep)\<lparr>bs_prev := []\<rparr>)"
    using fr ne by (simp add: bs BatchSampler_iter_def BatchSampler_init_def)
  show ?thesis
    unfolding it using c m d by (simp add: bs BatchSampler_init_def)
qed

text \<open>A dataset of ten integers, for concrete runs.\<close>

definition dataset10 :: "(int, int) dataset" where
  "dataset10 = list_dataset (map Other [0, 1, 2, 3, 4, 5, 6, 7, 8, 9])"

theorem default_last_batch_keep_witness:
  "(\<exists>dl. DataLoader_init asarray_int64 dataset10 (Some 3) False None None None None 0 = Inr dl
        \<and> bs_last_batch (dl_batch_sampler dl) = keep
        \<and> fst (BatchSampler_iter (dl_batch_sampler dl) [0, 1, 2, 3, 4, 5, 6, 7, 8, 9])
            = [[0, 1, 2], [3, 4, 5], [6, 7, 8], [9]])
   \<and> (0::nat) < 3 \<and> length [0::nat, 1, 2, 3, 4, 5, 6, 7, 8, 9] mod 3 \<noteq> 0"
proof -
  let ?dl = "\<lparr>dl_dataset = dataset10,
               dl_batch_sampler = BatchSampler_init (SequentialSampler (dataset_len dataset10)) 3 keep,
               dl_num_workers = 0, dl_batchify_fn = default_batchify_fn asarray_int64\<rparr>"
  have i: "DataLoader_init asarray_int64 dataset10 (Some 3) False None None None None 0 = Inr ?dl"
    by (simp add: DataLoader_init_def)
  have b: "(0::nat) < 3" by simp
  have m: "length [0::nat, 1, 2, 3, 4, 5, 6, 7, 8, 9] mod 3 \<noteq> 0" by simp
  from default_last_batch_keep[OF i b m]
  have k: "bs_last_batch (dl_batch_sampler ?dl) = keep" by blast
  have "fst (BatchSampler_iter (dl_batch_sampler ?dl) [0, 1, 2, 3, 4, 5, 6, 7, 8, 9])
            = [[0, 1, 2], [3, 4, 5], [6, 7, 8], [9]]"
    by (simp add: BatchSampler_iter_def BatchSampler_init_def)
  with i k have "\<exists>dl. DataLoader_init asarray_int64 dataset10 (Some 3) False None None None None 0 = Inr dl
        \<and> bs_last_batch (dl_batch_sampler dl) = keep
        \<and> fst (BatchSampler_iter (dl_batch_sampler dl) [0, 1, 2, 3, 4, 5, 6, 7, 8, 9])
            = [[0, 1, 2], [3, 4, 5], [6, 7, 8], [9]]"
    by blast
  then show ?thesis using b m by blast
qed

theorem init_raises_iff_conflict_witness:
  "(\<exists>msg. DataLoader_init asarray_int64 dataset10 None True (Some (UserSampler 10)) None None None 0
          = Inl (ValueError msg))
   \<and> (\<exists>dl. DataLoader_init asarray_int64 dataset10 (Some 3) True None (Some discard) None None 2
          = Inr dl)"
  using init_raises_iff_conflict[of asarray_int64 dataset10 None True "Some (UserSampler 10)" None None None 0]
    init_raises_iff_conflict[of asarray_int64 dataset10 "Some 3" True None "Some discard" None None 2]
  by simp


section \<open>The reorder buffer of the parallel iterator\<close>

text \<open>
  \<^verbatim>\<open>data_buffer\<close> is a Python dict from ticket to batch, modelled as an association list:
  \<^verbatim>\<open>data_buffer[idx] = batch\<close> is \<open>AList.update\<close>, \<^verbatim>\<open>curr_idx in data_buffer\<close> is a lookup with
  \<open>map_of\<close>, \<^verbatim>\<open>data_buffer.pop(curr_idx)\<close> returns the entry and deletes it.
\<close>

type_synonym 'b data_buffer = "(nat \<times> 'b) list"

lemma length_delete_less:
  "map_of al k = Some v \<Longrightarrow> length (AList.delete k al) < length al"
proof (induction al)
  case Nil
  then show ?case by simp
next
  case (Cons p al)
  have le: "length (filter (\<lambda>(k', _). k \<noteq> k') al) \<le> length al" by simp
  show ?case
  proof (cases "fst p = k")
    case True
    then show ?thesis using le by (cases p) (simp add: AList.delete_eq le_imp_less_Suc)
  next
    case False
    then have "map_of al k = Some v" using Cons.prems by (cases p) (auto split: if_splits)
    then show ?thesis using Cons.IH False by (cases p) (simp add: AList.delete_eq)
  qed
qed

text \<open>
  The inner loop \<^verbatim>\<open>while curr_idx in data_buffer: yield data_buffer.pop(curr_idx); curr_idx += 1\<close>:
  the batches yielded, the buffer and the counter afterwards. It terminates because every
  round removes an entry of the buffer.
\<close>

function flush :: "'b data_buffer \<Rightarrow> nat \<Rightarrow> 'b list \<times> 'b data_buffer \<times> nat" where
  "flush data_buffer curr_idx =
     (case map_of data_buffer curr_idx of
        None \<Rightarrow> ([], data_buffer, curr_idx)
      | Some batch \<Rightarrow>
          (case flush (AList.delete curr_idx data_buffer) (Suc curr_idx) of
             (yielded, data_buffer', curr_idx') \<Rightarrow> (batch # yielded, data_buffer', curr_idx')))"
  by pat_completeness auto

termination flush
  by (relation "measure (\<lambda>(data_buffer, curr_idx). length data_buffer)")
     (auto intro: length_delete_less)

declare flush.simps [simp del]

lemma flush_None: "map_of data_buffer curr_idx = None \<Longrightarrow>
    flush data_buffer curr_idx = ([], data_buffer, curr_idx)"
  by (subst flush.simps) simp

lemma flush_Some: "map_of data_buffer curr_idx = Some batch \<Longrightarrow>
    flush data_buffer curr_idx =
      (case flush (AList.delete curr_idx data_buffer) (Suc curr_idx) of
         (yielded, data_buffer', curr_idx') \<Rightarrow> (batch # yielded, data_buffer', curr_idx'))"
  by (subst flush.simps) simp

text \<open>
  What the inner loop does to a buffer whose tickets are distinct: the entries it removes
  are those of the tickets \<open>c, c + 1, ..., c' - 1\<close>, yielded in this order; the other
  entries stay, and the ticket \<open>c'\<close> it stops at is not in the buffer.
\<close>

lemma update_fresh: "k \<notin> fst ` set al \<Longrightarrow> AList.update k v al = al @ [(k, v)]"
  by (induction al) auto

lemma mset_delete_distinct:
  "distinct (map fst al) \<Longrightarrow> map_of al k = Some v \<Longrightarrow>
   mset al = add_mset (k, v) (mset (AList.delete k al))"
proof (induction al)
  case Nil
  then show ?case by simp
next
  case (Cons p al)
  obtain k' v' where p: "p = (k', v')" by (cases p) auto
  show ?case
  proof (cases "k' = k")
    case True
    then have v: "v' = v" using Cons.prems(2) p by simp
    have "k \<notin> fst ` set al" using Cons.prems(1) p True by auto
    then have "AList.delete k al = al" by (simp add: delete_id)
    then show ?thesis using p True v by (simp add: AList.delete_eq)
  next
    case False
    then have "map_of al k = Some v" using Cons.prems(2) p by simp
    moreover have "distinct (map fst al)" using Cons.prems(1) by simp
    ultimately have "mset al = add_mset (k, v) (mset (AList.delete k al))" by (rule Cons.IH[rotated])
    then show ?thesis using p False by (simp add: AList.delete_eq)
  qed
qed

lemma flush_mset:
  "flush buf c = (ys, buf', c') \<Longrightarrow> distinct (map fst buf) \<Longrightarrow>
   c \<le> c' \<and> length ys = c' - c \<and> mset buf = mset buf' + mset (zip [c ..< c'] ys)
   \<and> distinct (map fst buf') \<and> c' \<notin> fst ` set buf'"
proof (induction buf c arbitrary: ys buf' c' rule: flush.induct)
  case (1 data_buffer curr_idx)
  show ?case
  proof (cases "map_of data_buffer curr_idx")
    case None
    then have e: "ys = []" "buf' = data_buffer" "c' = curr_idx"
      using "1.prems"(1) by (simp_all add: flush_None)
    have "curr_idx \<notin> fst ` set data_buffer" using None by (simp add: map_of_eq_None_iff)
    then show ?thesis using e "1.prems"(2) by simp
  next
    case (Some batch)
    obtain zs b2 c2 where r: "flush (AList.delete curr_idx data_buffer) (Suc curr_idx) = (zs, b2, c2)"
      by (metis prod_cases3)
    from "1.prems"(1) Some r have e: "ys = batch # zs" "buf' = b2" "c' = c2"
      by (simp_all add: flush_Some)
    have d: "distinct (map fst (AList.delete curr_idx data_buffer))"
      using "1.prems"(2) by (rule distinct_delete)
    note ih = "1.IH"[OF Some r d]
    have m: "mset data_buffer = add_mset (curr_idx, batch) (mset (AList.delete curr_idx data_buffer))"
      using mset_delete_distinct[OF "1.prems"(2) Some] .
    have lt: "curr_idx < c'" using ih e by simp
    have z: "zip [curr_idx ..< c'] ys = (curr_idx, batch) # zip [Suc curr_idx ..< c2] zs"
      using lt e by (simp add: upt_conv_Cons)
    have "mset data_buffer = mset buf' + mset (zip [curr_idx ..< c'] ys)"
      unfolding z m using ih e by simp
    moreover have "length ys = c' - curr_idx" using ih e lt by simp
    ultimately show ?thesis using ih e lt by simp
  qed
qed


section \<open>The worker loop\<close>

text \<open>
  A job is the pair \<^verbatim>\<open>(idx, samples)\<close> put on \<^verbatim>\<open>key_queue\<close>; the sentinel \<^verbatim>\<open>(None, None)\<close> has
  the ticket \<open>None\<close>, and its second component is never read.
\<close>

type_synonym job = "nat option \<times> nat list"

type_synonym ('v, 'o) batchify = "('v, 'o) sample list \<Rightarrow> error + 'v batch"

text \<open>\<^verbatim>\<open>[dataset[i] for i in samples]\<close>: the samples in index order, or the first exception.\<close>

definition fetch :: "('v, 'o) dataset \<Rightarrow> nat list \<Rightarrow> error + ('v, 'o) sample list" where
  "fetch dataset samples = sequence (map (getitem dataset) samples)"

text \<open>
  One round of \<^verbatim>\<open>worker_loop\<close> on the job received: \<^verbatim>\<open>break\<close>, the result put on
  \<^verbatim>\<open>data_queue\<close>, or the exception that ends the process.
\<close>

datatype 'v worker_action = Break | Put "nat \<times> 'v batch" | Raised error

definition worker_iteration ::
  "('v, 'o) dataset \<Rightarrow> ('v, 'o) batchify \<Rightarrow> job \<Rightarrow> 'v worker_action" where
  "worker_iteration dataset batchify_fn job =
     (case job of
        (None, samples) \<Rightarrow> Break
      | (Some idx, samples) \<Rightarrow>
          (case fetch dataset samples of
             Inl e \<Rightarrow> Raised e
           | Inr xs \<Rightarrow>
               (case batchify_fn xs of
                  Inl e \<Rightarrow> Raised e
                | Inr batch \<Rightarrow> Put (idx, batch))))"

text \<open>
  \<^verbatim>\<open>worker_loop\<close> for one worker that receives the jobs of \<open>key_queue\<close> in order and appends its
  results to \<open>data_queue\<close>: what is left on \<open>key_queue\<close>, the contents of \<open>data_queue\<close>, and how
  the loop ends. On an empty \<open>key_queue\<close> the call \<^verbatim>\<open>key_queue.get()\<close> blocks.
\<close>

datatype worker_end = Exited | Crashed error | Blocked

fun worker_loop ::
  "('v, 'o) dataset \<Rightarrow> ('v, 'o) batchify \<Rightarrow> job list \<Rightarrow> (nat \<times> 'v batch) list \<Rightarrow>
   job list \<times> (nat \<times> 'v batch) list \<times> worker_end" where
  "worker_loop dataset batchify_fn [] data_queue = ([], data_queue, Blocked)"
| "worker_loop dataset batchify_fn (job # key_queue) data_queue =
     (case worker_iteration dataset batchify_fn job of
        Break \<Rightarrow> (key_queue, data_queue, Exited)
      | Raised e \<Rightarrow> (key_queue, data_queue, Crashed e)
      | Put r \<Rightarrow> worker_loop dataset batchify_fn key_queue (data_queue @ [r]))"

lemma fetch_in_order:
  "list_all2 (\<lambda>i x. getitem dataset i = Inr x) samples xs \<Longrightarrow> fetch dataset samples = Inr xs"
  unfolding fetch_def by (induction samples xs rule: list_all2_induct) auto

text \<open>
  Claim C5 (worker loop). On a sentinel job the worker exits, leaving both queues as they
  are. On any other job \<open>(idx, samples)\<close> whose samples \<open>xs\<close> are fetched in index order
  and collated into \<open>batch\<close>, it puts \<open>(idx, batch)\<close>, with the same ticket, on the result
  queue and loops.
\<close>

theorem worker_loop_behaviour:
  "worker_loop dataset batchify_fn ((None, samples) # key_queue) data_queue
     = (key_queue, data_queue, Exited)
   \<and> (list_all2 (\<lambda>i x. getitem dataset i = Inr x) samples xs \<and> batchify_fn xs = Inr batch
        \<longrightarrow> worker_loop dataset batchify_fn ((Some idx, samples) # key_queue) data_queue
            = worker_loop dataset batchify_fn key_queue (data_queue @ [(idx, batch)]))"
  by (auto simp: worker_iteration_def dest: fetch_in_order)

theorem worker_loop_behaviour_witness:
  "list_all2 (\<lambda>i x. getitem dataset10 i = Inr x) [4, 2] [Other 4, Other 2]
   \<and> default_batchify_fn asarray_int64 [Other 4, Other 2]
       = Inr (BatchArray \<lparr>shape = [2], dtype = ''int64'', ctx = cpu, elems = [4, 2]\<rparr>)
   \<and> worker_loop dataset10 (default_batchify_fn asarray_int64)
        [(Some 7, [4, 2]), (None, []), (Some 8, [1])] []
      = ([(Some 8, [1])],
         [(7, BatchArray \<lparr>shape = [2], dtype = ''int64'', ctx = cpu, elems = [4, 2]\<rparr>)],
         Exited)"
proof -
  have f: "list_all2 (\<lambda>i x. getitem dataset10 i = Inr x) [4, 2] [Other 4, Other 2]"
    by (simp add: dataset10_def list_dataset_def)
  have b: "default_batchify_fn asarray_int64 [Other 4, Other 2]
       = Inr (BatchArray \<lparr>shape = [2], dtype = ''int64'', ctx = cpu, elems = [4, 2]\<rparr>)"
    by (simp add: default_batchify_fn_Other asarray_int64_def nd_array_def)
  note w = worker_loop_behaviour[of dataset10 "default_batchify_fn asarray_int64"]
  have "worker_loop dataset10 (default_batchify_fn asarray_int64)
        [(Some 7, [4, 2]), (None, []), (Some 8, [1])] []
      = worker_loop dataset10 (default_batchify_fn asarray_int64) [(None, []), (Some 8, [1])]
          ([] @ [(7, BatchArray \<lparr>shape = [2], dtype = ''int64'', ctx = cpu, elems = [4, 2]\<rparr>)])"
    using w[THEN conjunct2, rule_format, OF conjI[OF f b]] .
  also have "\<dots> = ([(Some 8, [1])],
         [(7, BatchArray \<lparr>shape = [2], dtype = ''int64'', ctx = cpu, elems = [4, 2]\<rparr>)],
         Exited)"
    using w[THEN conjunct1, of "[]" "[(Some 8, [1])]"] by simp
  finally show ?thesis using f b by blast
qed

text \<open>
  Claim C10 (empty sample list). Both default collate functions raise \<open>IndexError\<close> on the
  empty list, at \<^verbatim>\<open>data[0]\<close>; a worker that receives a job with no indices dies of it and
  puts nothing on the result queue.
\<close>

theorem empty_sample_list_fails:
  "default_batchify_fn asarray [] = Inl IndexError
   \<and> default_mp_batchify_fn asarray [] = Inl IndexError
   \<and> worker_loop dataset (default_batchify_fn asarray) ((Some idx, []) # key_queue) data_queue
       = (key_queue, data_queue, Crashed IndexError)
   \<and> worker_loop dataset (default_mp_batchify_fn asarray) ((Some idx, []) # key_queue) data_queue
       = (key_queue, data_queue, Crashed IndexError)"
  by (simp add: default_batchify_fn_Nil default_mp_batchify_fn_Nil worker_iteration_def fetch_def)

section \<open>The connection wrapper and the queue class\<close>

text \<open>
  The names bound in the module namespace of \<^verbatim>\<open>dataloader.py\<close> by its assignments, imports,
  function and class definitions. \<^verbatim>\<open>import multiprocessing.queues\<close> binds \<^verbatim>\<open>multiprocessing\<close>.
\<close>

definition module_globals :: "string list" where
  "module_globals =
     [''__all__'', ''np'', ''multiprocessing'', ''ForkingPickler'', ''pickle'', ''_sampler'',
      ''nd'', ''context'', ''rebuild_ndarray'', ''reduce_ndarray'', ''ConnectionWrapper'',
      ''SimpleQueue'', ''default_batchify_fn'', ''default_mp_batchify_fn'', ''worker_loop'',
      ''DataLoader'']"

text \<open>
  Looking up a global name inside a function of the module. A name that is not bound in
  the module is looked up among the builtins; only names that are not builtins are looked
  up below (\<^verbatim>\<open>io\<close> is not a builtin), so a missing name raises \<open>NameError\<close>.
\<close>

definition load_global :: "string \<Rightarrow> error + unit" where
  "load_global name = (if name \<in> set module_globals then Inr () else Inl (NameError name))"

text \<open>An operating-system connection: the byte strings sent through it so far.\<close>

type_synonym conn = "string list"

text \<open>
  \<^verbatim>\<open>ConnectionWrapper.send\<close>: \<^verbatim>\<open>io.BytesIO()\<close> first loads the global \<^verbatim>\<open>io\<close>; then the object
  is pickled (\<open>dumps\<close>) and the bytes are sent by \<^verbatim>\<open>send_bytes\<close> of the wrapped connection.
\<close>

definition ConnectionWrapper_send :: "('obj \<Rightarrow> string) \<Rightarrow> conn \<Rightarrow> 'obj \<Rightarrow> error + conn" where
  "ConnectionWrapper_send dumps conn obj =
     (case load_global ''io'' of
        Inl e \<Rightarrow> Inl e
      | Inr _ \<Rightarrow> Inr (conn @ [dumps obj]))"

text \<open>
  An end of the pipe of a queue: the connection itself or a \<^verbatim>\<open>ConnectionWrapper\<close> around
  it. Of the state of a queue only the two ends of its pipe matter here.
\<close>

datatype endpoint = Connection conn | ConnectionWrapper conn

record SimpleQueue =
  reader :: endpoint
  writer :: endpoint

fun the_conn :: "endpoint \<Rightarrow> conn" where
  "the_conn (Connection c) = c"
| "the_conn (ConnectionWrapper c) = c"

text \<open>
  \<^verbatim>\<open>send_bytes\<close> on an end of the pipe. The wrapper class does not define it, so
  \<^verbatim>\<open>ConnectionWrapper.__getattr__\<close> returns the \<^verbatim>\<open>send_bytes\<close> of the wrapped connection: on
  either kind of end the bytes are sent by the connection.
\<close>

definition endpoint_send_bytes :: "endpoint \<Rightarrow> string \<Rightarrow> endpoint" where
  "endpoint_send_bytes e bytes =
     (case e of
        Connection c \<Rightarrow> Connection (c @ [bytes])
      | ConnectionWrapper c \<Rightarrow> ConnectionWrapper (c @ [bytes]))"

text \<open>
  The class \<^verbatim>\<open>SimpleQueue\<close> extends \<^verbatim>\<open>multiprocessing.queues.Queue\<close> of the standard library.
  Its constructor only calls the inherited constructor (with the default context). Its
  method \<^verbatim>\<open>_make_methods\<close> wraps both ends unless the reader is wrapped already and then calls
  the inherited \<^verbatim>\<open>_make_methods\<close>. The inherited methods are the parameters \<open>super_init\<close>
  and \<open>super_make_methods\<close>. Nothing in \<^verbatim>\<open>dataloader.py\<close> calls \<^verbatim>\<open>_make_methods\<close>.
\<close>

definition SimpleQueue_init :: "(nat \<Rightarrow> SimpleQueue) \<Rightarrow> nat \<Rightarrow> SimpleQueue" where
  "SimpleQueue_init super_init capacity = super_init capacity"

definition SimpleQueue_make_methods ::
  "(SimpleQueue \<Rightarrow> error + SimpleQueue) \<Rightarrow> SimpleQueue \<Rightarrow> error + SimpleQueue" where
  "SimpleQueue_make_methods super_make_methods q =
     super_make_methods
       (case reader q of
          ConnectionWrapper c \<Rightarrow> q
        | Connection c \<Rightarrow>
            \<lparr>reader = ConnectionWrapper (the_conn (reader q)),
             writer = ConnectionWrapper (the_conn (writer q))\<rparr>)"

text \<open>
  The inherited constructor and the inherited \<^verbatim>\<open>put\<close>, as \<^verbatim>\<open>multiprocessing.queues.Queue\<close>
  of Python 3 has them (\<^verbatim>\<open>multiprocessing.get_context\<close> and the keyword \<^verbatim>\<open>ctx\<close>, which the
  module uses, exist in Python 3 only). The constructor opens a pipe and keeps its two
  connections as \<^verbatim>\<open>_reader\<close> and \<^verbatim>\<open>_writer\<close>; it calls no \<^verbatim>\<open>_make_methods\<close>, so both ends
  stay plain connections. \<^verbatim>\<open>put\<close> hands the object to the feeder thread, which pickles it
  and passes the bytes to \<^verbatim>\<open>send_bytes\<close> of the writer; it never calls \<^verbatim>\<open>send\<close>.
\<close>

definition Queue_init :: "nat \<Rightarrow> SimpleQueue" where
  "Queue_init capacity = \<lparr>reader = Connection [], writer = Connection []\<rparr>"

definition Queue_put :: "('obj \<Rightarrow> string) \<Rightarrow> SimpleQueue \<Rightarrow> 'obj \<Rightarrow> error + SimpleQueue" where
  "Queue_put dumps q obj = Inr (q\<lparr>writer := endpoint_send_bytes (writer q) (dumps obj)\<rparr>)"

text \<open>
  Claim C8 (send), for the calls of \<^verbatim>\<open>ConnectionWrapper.send\<close> itself. Whatever the pickler,
  the connection and the object, \<^verbatim>\<open>send\<close> raises \<open>NameError\<close> for \<^verbatim>\<open>io\<close> and nothing is sent.
\<close>

theorem send_raises_NameError:
  "ConnectionWrapper_send dumps conn obj = Inl (NameError ''io'')"
  by (simp add: ConnectionWrapper_send_def load_global_def module_globals_def)

text \<open>
  Claim C8 as it is stated also says that every job and result sent through the queues of
  parallel mode fails in this way. It does not: a job put on a queue built as
  \<^verbatim>\<open>SimpleQueue(maxsize=65535)\<close> is pickled (here to the string \<open>bytes\<close>) and sent through
  the plain writer connection; \<^verbatim>\<open>ConnectionWrapper.send\<close> is not called and no \<open>NameError\<close>
  is raised.
\<close>

theorem put_does_not_call_send:
  "Queue_put (\<lambda>job. ''bytes'') (SimpleQueue_init Queue_init 65535) (Some (0::nat), [0, 1, 2::nat])
     = Inr \<lparr>reader = Connection [], writer = Connection [''bytes'']\<rparr>
   \<and> Queue_put (\<lambda>job. ''bytes'') (SimpleQueue_init Queue_init 65535) (Some (0::nat), [0, 1, 2::nat])
       \<noteq> Inl (NameError ''io'')"
  by (simp add: Queue_put_def SimpleQueue_init_def Queue_init_def endpoint_send_bytes_def)


section \<open>DataLoader: iteration\<close>

subsection \<open>Synchronous mode\<close>

text \<open>
  \<^verbatim>\<open>__iter__\<close> with \<^verbatim>\<open>num_workers == 0\<close> on the index batches of the batch sampler: the batches
  yielded, and the exception that ended the generator, if any.
\<close>

fun iter_sync ::
  "('v, 'o) dataset \<Rightarrow> ('v, 'o) batchify \<Rightarrow> nat list list \<Rightarrow> 'v batch list \<times> error option" where
  "iter_sync dataset batchify_fn [] = ([], None)"
| "iter_sync dataset batchify_fn (batch # rest) =
     (case fetch dataset batch of
        Inl e \<Rightarrow> ([], Some e)
      | Inr xs \<Rightarrow>
          (case batchify_fn xs of
             Inl e \<Rightarrow> ([], Some e)
           | Inr b \<Rightarrow>
               (case iter_sync dataset batchify_fn rest of
                  (yielded, r) \<Rightarrow> (b # yielded, r))))"

lemma iter_sync_length:
  "iter_sync dataset batchify_fn batches = (ys, None) \<Longrightarrow> length ys = length batches"
  by (induction batches arbitrary: ys) (auto split: sum.splits prod.splits)

subsection \<open>Parallel mode\<close>

text \<open>
  Both queues are created with \<^verbatim>\<open>SimpleQueue(maxsize=65535)\<close>: a bounded first-in first-out
  channel; \<^verbatim>\<open>put\<close> blocks while it is full and \<^verbatim>\<open>get\<close> blocks while it is empty.
\<close>

definition maxsize :: nat where
  "maxsize = 65535"

text \<open>
  A worker process: waiting in \<^verbatim>\<open>key_queue.get()\<close>, about to put a result on \<^verbatim>\<open>data_queue\<close>,
  or terminated (after the sentinel, or by the exception given).
\<close>

datatype 'v worker = Idle | Publishing "nat \<times> 'v batch" | Terminated "error option"

text \<open>
  The position of the generator in the parallel branch of \<^verbatim>\<open>__iter__\<close>: in the loop over
  \<^verbatim>\<open>enumerate(self._batch_sampler)\<close> (next ticket, index batches left), in the loop over
  \<^verbatim>\<open>range(len(self._batch_sampler))\<close> (rounds left), in the loop that puts the sentinels
  (puts left), in the loop that joins the workers (next worker), or finished.
\<close>

datatype dispatcher =
    Enqueue nat "nat list list"
  | Drain nat
  | Sentinels nat
  | Join nat
  | Done

text \<open>
  The state of one parallel pass. \<open>sampler_state\<close> is the batch sampler once its iteration
  is over. \<open>put_log\<close> and \<open>n_got\<close> record history and influence nothing: the jobs the
  generator has put on \<open>key_queue\<close>, in order, and the number of results it has taken from
  \<open>data_queue\<close>.
\<close>

record 'v pass =
  key_queue :: "job list"
  data_queue :: "(nat \<times> 'v batch) list"
  workers :: "'v worker list"
  dispatcher :: dispatcher
  data_buffer :: "'v batch data_buffer"
  curr_idx :: nat
  yielded :: "'v batch list"
  sampler_state :: BatchSampler
  put_log :: "job list"
  n_got :: nat

text \<open>
  The start of the pass: the queues are empty, \<^verbatim>\<open>num_workers\<close> workers are started, the
  generator is about to enumerate the index batches that the batch sampler yields for the
  indices \<open>idxs\<close> of its sampler.
\<close>

definition iter_parallel_start :: "('v, 'o) DataLoader \<Rightarrow> nat list \<Rightarrow> 'v pass" where
  "iter_parallel_start dl idxs =
     (case BatchSampler_iter (dl_batch_sampler dl) idxs of
        (batches, bs') \<Rightarrow>
          \<lparr>key_queue = [], data_queue = [],
           workers = replicate (nat (dl_num_workers dl)) Idle,
           dispatcher = Enqueue 0 batches,
           data_buffer = [], curr_idx = 0, yielded = [],
           sampler_state = bs', put_log = [], n_got = 0\<rparr>)"

text \<open>
  One step of the generator, \<open>None\<close> when it is blocked or finished. The batches passed to
  \<^verbatim>\<open>yield\<close> are appended to \<open>yielded\<close>: the consumer takes every batch and resumes the
  generator. \<^verbatim>\<open>len(self._batch_sampler)\<close> is evaluated when the enumeration is over.
\<close>

definition dispatcher_step :: "('v, 'o) DataLoader \<Rightarrow> 'v pass \<Rightarrow> 'v pass option" where
  "dispatcher_step dl s =
     (case dispatcher s of
        Enqueue idx [] \<Rightarrow>
          Some (s\<lparr>dispatcher := Drain (BatchSampler_len (sampler_state s)),
                  data_buffer := [], curr_idx := 0\<rparr>)
      | Enqueue idx (batch # rest) \<Rightarrow>
          if length (key_queue s) < maxsize
          then Some (s\<lparr>key_queue := key_queue s @ [(Some idx, batch)],
                       put_log := put_log s @ [(Some idx, batch)],
                       dispatcher := Enqueue (Suc idx) rest\<rparr>)
          else None
      | Drain 0 \<Rightarrow> Some (s\<lparr>dispatcher := Sentinels (nat (dl_num_workers dl))\<rparr>)
      | Drain (Suc n) \<Rightarrow>
          (case data_queue s of
             [] \<Rightarrow> None
           | (idx, batch) # q \<Rightarrow>
               (case flush (AList.update idx batch (data_buffer s)) (curr_idx s) of
                  (ys, buf, c) \<Rightarrow>
                    Some (s\<lparr>data_queue := q, data_buffer := buf, curr_idx := c,
                            yielded := yielded s @ ys, n_got := Suc (n_got s),
                            dispatcher := Drain n\<rparr>)))
      | Sentinels 0 \<Rightarrow> Some (s\<lparr>dispatcher := Join 0\<rparr>)
      | Sentinels (Suc n) \<Rightarrow>
          if length (key_queue s) < maxsize
          then Some (s\<lparr>key_queue := key_queue s @ [(None, [])],
                       put_log := put_log s @ [(None, [])],
                       dispatcher := Sentinels n\<rparr>)
          else None
      | Join w \<Rightarrow>
          if w < length (workers s)
          then (case workers s ! w of
                  Terminated r \<Rightarrow> Some (s\<lparr>dispatcher := Join (Suc w)\<rparr>)
                | Idle \<Rightarrow> None
                | Publishing r \<Rightarrow> None)
          else Some (s\<lparr>dispatcher := Done\<rparr>)
      | Done \<Rightarrow> None)"

text \<open>One step of worker \<open>w\<close>: it takes a job and works on it, or it puts its result.\<close>

definition worker_step :: "('v, 'o) DataLoader \<Rightarrow> nat \<Rightarrow> 'v pass \<Rightarrow> 'v pass option" where
  "worker_step dl w s =
     (if w < length (workers s)
      then (case workers s ! w of
              Idle \<Rightarrow>
                (case key_queue s of
                   [] \<Rightarrow> None
                 | job # kq \<Rightarrow>
                     Some (s\<lparr>key_queue := kq,
                             workers := (workers s)
                               [w := (case worker_iteration (dl_dataset dl) (dl_batchify_fn dl) job of
                                        Break \<Rightarrow> Terminated None
                                      | Raised e \<Rightarrow> Terminated (Some e)
                                      | Put r \<Rightarrow> Publishing r)]\<rparr>))
            | Publishing r \<Rightarrow>
                if length (data_queue s) < maxsize
                then Some (s\<lparr>data_queue := data_queue s @ [r],
                             workers := (workers s)[w := Idle]\<rparr>)
                else None
            | Terminated r \<Rightarrow> None)
      else None)"

text \<open>
  The processes run in any interleaving: a schedule lists who moves next; a move that is
  blocked leaves the state as it is.
\<close>

datatype event = Dispatcher | Worker nat

fun step :: "('v, 'o) DataLoader \<Rightarrow> event \<Rightarrow> 'v pass \<Rightarrow> 'v pass option" where
  "step dl Dispatcher s = dispatcher_step dl s"
| "step dl (Worker w) s = worker_step dl w s"

fun run :: "('v, 'o) DataLoader \<Rightarrow> event list \<Rightarrow> 'v pass \<Rightarrow> 'v pass" where
  "run dl [] s = s"
| "run dl (e # es) s = run dl es (case step dl e s of None \<Rightarrow> s | Some s' \<Rightarrow> s')"

fun terminated :: "'v worker \<Rightarrow> bool" where
  "terminated (Terminated r) = True"
| "terminated Idle = False"
| "terminated (Publishing r) = False"

text \<open>The jobs of a whole pass: the ticketed index batches, then one sentinel per worker.\<close>

definition all_jobs :: "nat list list \<Rightarrow> nat \<Rightarrow> job list" where
  "all_jobs batches W =
     map (\<lambda>(idx, batch). (Some idx, batch)) (enumerate 0 batches) @ replicate W (None, [])"

subsection \<open>The invariant of a parallel pass\<close>

text \<open>
  The expression \<^verbatim>\<open>batchify_fn([dataset[i] for i in samples])\<close> of the worker loop and of
  the synchronous branch, for the dataset and the collate function of a loader.
\<close>

definition batch_of :: "('v, 'o) DataLoader \<Rightarrow> nat list \<Rightarrow> error + 'v batch" where
  "batch_of dl samples =
     (case fetch (dl_dataset dl) samples of
        Inl e \<Rightarrow> Inl e
      | Inr xs \<Rightarrow> dl_batchify_fn dl xs)"

text \<open>
  The number of \<^verbatim>\<open>key_queue.put\<close> calls that the generator has completed when it is at the
  given position, for \<open>m\<close> index batches and \<open>W\<close> workers.
\<close>

fun puts_done :: "nat \<Rightarrow> nat \<Rightarrow> dispatcher \<Rightarrow> nat" where
  "puts_done m W (Enqueue k rest) = k"
| "puts_done m W (Drain r) = m"
| "puts_done m W (Sentinels r) = m + W - r"
| "puts_done m W (Join w) = m + W"
| "puts_done m W Done = m + W"

text \<open>The generator has left the loop over \<^verbatim>\<open>range(len(self._batch_sampler))\<close>.\<close>

fun drained :: "dispatcher \<Rightarrow> bool" where
  "drained (Enqueue k rest) = False"
| "drained (Drain r) = False"
| "drained (Sentinels r) = True"
| "drained (Join w) = True"
| "drained Done = True"

text \<open>
  Where the jobs taken off \<open>key_queue\<close> are. A worker that is not waiting for a job has
  taken one: it holds the result, or the job ended it. Every result published is on
  \<open>data_queue\<close>, in the buffer, or was yielded. \<open>jobs_taken\<close> counts them, \<open>in_flight\<close> lists
  the results that are not yet yielded.
\<close>

fun busy :: "'v worker \<Rightarrow> nat" where
  "busy Idle = 0"
| "busy (Publishing r) = 1"
| "busy (Terminated r) = 1"

fun held :: "'v worker \<Rightarrow> (nat \<times> 'v batch) list" where
  "held Idle = []"
| "held (Publishing r) = [r]"
| "held (Terminated r) = []"

definition jobs_taken :: "'v pass \<Rightarrow> nat" where
  "jobs_taken s =
     sum_list (map busy (workers s)) + length (data_queue s) + length (data_buffer s) + curr_idx s"

definition in_flight :: "'v pass \<Rightarrow> (nat \<times> 'v batch) list" where
  "in_flight s = concat (map held (workers s)) @ data_queue s @ data_buffer s"

text \<open>The part of the invariant that depends on the position of the generator.\<close>

definition phase_inv :: "nat \<Rightarrow> nat \<Rightarrow> nat \<Rightarrow> 'v pass \<Rightarrow> bool" where
  "phase_inv m W n s =
     (case dispatcher s of
        Enqueue k rest \<Rightarrow>
          k \<le> m \<and> data_buffer s = [] \<and> curr_idx s = 0
          \<and> BatchSampler_len (sampler_state s) = n \<and> Terminated None \<notin> set (workers s)
      | Drain r \<Rightarrow>
          length (data_buffer s) + curr_idx s + r = n \<and> Terminated None \<notin> set (workers s)
      | Sentinels r \<Rightarrow> r \<le> W \<and> length (data_buffer s) + curr_idx s = n
      | Join w \<Rightarrow>
          w \<le> W \<and> (\<forall>v < w. terminated (workers s ! v))
          \<and> length (data_buffer s) + curr_idx s = n
      | Done \<Rightarrow>
          (\<forall>v < W. terminated (workers s ! v)) \<and> length (data_buffer s) + curr_idx s = n)"

text \<open>
  The invariant of a pass over the index batches \<open>batches\<close>, where \<open>n\<close> is the value of
  \<^verbatim>\<open>len(self._batch_sampler)\<close> after the enumeration. The jobs put so far are an initial
  segment of the jobs of the pass, and \<open>key_queue\<close> holds those of them that no worker has
  taken. The tickets of the results in flight are distinct, not yet yielded, and belong to
  jobs that were taken; every result in flight is the batch of its ticket. The batches
  yielded are those of the tickets below \<open>curr_idx\<close>, in this order.
\<close>

definition pass_inv :: "('v, 'o) DataLoader \<Rightarrow> nat list list \<Rightarrow> nat \<Rightarrow> 'v pass \<Rightarrow> bool" where
  "pass_inv dl batches n s \<longleftrightarrow>
     length (workers s) = nat (dl_num_workers dl)
     \<and> length (key_queue s) \<le> maxsize \<and> length (data_queue s) \<le> maxsize
     \<and> jobs_taken s \<le> puts_done (length batches) (nat (dl_num_workers dl)) (dispatcher s)
     \<and> puts_done (length batches) (nat (dl_num_workers dl)) (dispatcher s)
          \<le> length batches + nat (dl_num_workers dl)
     \<and> key_queue s =
          drop (jobs_taken s)
            (take (puts_done (length batches) (nat (dl_num_workers dl)) (dispatcher s))
               (all_jobs batches (nat (dl_num_workers dl))))
     \<and> mset (map fst (in_flight s))
          \<subseteq># mset [curr_idx s ..< min (jobs_taken s) (length batches)]
     \<and> (\<forall>r \<in> set (in_flight s). batch_of dl (batches ! fst r) = Inr (snd r))
     \<and> curr_idx s \<notin> fst ` set (data_buffer s)
     \<and> curr_idx s \<le> length batches
     \<and> iter_sync (dl_dataset dl) (dl_batchify_fn dl) (take (curr_idx s) batches)
          = (yielded s, None)
     \<and> (\<forall>k rest. dispatcher s = Enqueue k rest \<longrightarrow> rest = drop k batches)
     \<and> phase_inv (length batches) (nat (dl_num_workers dl)) n s
     \<and> put_log s =
          take (puts_done (length batches) (nat (dl_num_workers dl)) (dispatcher s))
            (all_jobs batches (nat (dl_num_workers dl)))
     \<and> n_got s = length (data_buffer s) + curr_idx s"

lemma all_jobs_length: "length (all_jobs batches W) = length batches + W"
  by (simp add: all_jobs_def)

lemma all_jobs_nth_job:
  "i < length batches \<Longrightarrow> all_jobs batches W ! i = (Some i, batches ! i)"
  by (simp add: all_jobs_def nth_append nth_enumerate_eq)

lemma all_jobs_nth_sentinel:
  "length batches \<le> i \<Longrightarrow> i < length batches + W \<Longrightarrow> all_jobs batches W ! i = (None, [])"
  by (simp add: all_jobs_def nth_append)

lemma no_sentinel_among_jobs:
  "i \<le> length batches \<Longrightarrow> (None, x) \<notin> set (take i (all_jobs batches W))"
proof
  assume i: "i \<le> length batches" and m: "(None, x) \<in> set (take i (all_jobs batches W))"
  have "take i (all_jobs batches W)
      = take i (map (\<lambda>(idx, batch). (Some idx, batch)) (enumerate 0 batches))"
    using i by (simp add: all_jobs_def)
  then have "(None, x) \<in> set (map (\<lambda>(idx, batch). (Some idx, batch)) (enumerate 0 batches))"
    using m by (metis in_set_takeD)
  then show False by auto
qed

lemma sum_list_map_update:
  fixes f :: "'a \<Rightarrow> nat"
  shows "i < length xs \<Longrightarrow> sum_list (map f (xs[i := x])) + f (xs ! i) = sum_list (map f xs) + f x"
proof (induction xs arbitrary: i)
  case Nil
  then show ?case by simp
next
  case (Cons a xs)
  show ?case
  proof (cases i)
    case 0
    then show ?thesis by simp
  next
    case (Suc j)
    then have "j < length xs" using Cons.prems by simp
    from Cons.IH[OF this] show ?thesis using Suc by simp
  qed
qed

lemma mset_concat_map_update:
  "i < length xs \<Longrightarrow>
   mset (concat (map f (xs[i := x]))) + mset (f (xs ! i)) = mset (concat (map f xs)) + mset (f x)"
proof (induction xs arbitrary: i)
  case Nil
  then show ?case by simp
next
  case (Cons a xs)
  show ?case
  proof (cases i)
    case 0
    then show ?thesis by simp
  next
    case (Suc j)
    then have "j < length xs" using Cons.prems by simp
    from Cons.IH[OF this] show ?thesis using Suc by (simp add: ac_simps)
  qed
qed

lemma sum_list_busy_le: "sum_list (map busy ws) \<le> length ws"
proof (induction ws)
  case Nil
  then show ?case by simp
next
  case (Cons w ws)
  then show ?case by (cases w) simp_all
qed


lemma worker_iteration_job:
  "worker_iteration (dl_dataset dl) (dl_batchify_fn dl) (Some t, samples) =
     (case batch_of dl samples of Inl e \<Rightarrow> Raised e | Inr b \<Rightarrow> Put (t, b))"
  by (simp add: worker_iteration_def batch_of_def split: sum.splits)

lemma worker_iteration_sentinel:
  "worker_iteration dataset batchify_fn (None, samples) = Break"
  by (simp add: worker_iteration_def)

lemma key_queue_head:
  assumes "drop i (take p xs) = job # kq"
  shows "i < p \<and> i < length xs \<and> job = xs ! i \<and> kq = drop (Suc i) (take p xs)"
proof -
  have l: "i < length (take p xs)"
    using assms by (metis drop_eq_Nil list.distinct(1) not_le)
  then have ip: "i < p" "i < length xs" by simp_all
  have "drop i (take p xs) = take p xs ! i # drop (Suc i) (take p xs)"
    using Cons_nth_drop_Suc[OF l] by simp
  then have "job = take p xs ! i" "kq = drop (Suc i) (take p xs)" using assms by simp_all
  then show ?thesis using ip by simp
qed

lemma upt_mset_mono: "a \<le> b \<Longrightarrow> mset [c ..< a] \<subseteq># mset [c ..< b]"
proof (cases "c \<le> a")
  case True
  assume "a \<le> b"
  then have "[c ..< b] = [c ..< a] @ [a ..< b]"
    using True by (metis le_Suc_ex upt_add_eq_append)
  then show ?thesis by simp
next
  case False
  then show ?thesis by simp
qed

lemma pass_invD:
  assumes "pass_inv dl batches n s"
  shows "length (workers s) = nat (dl_num_workers dl)"
    and "length (key_queue s) \<le> maxsize"
    and "length (data_queue s) \<le> maxsize"
    and "jobs_taken s \<le> puts_done (length batches) (nat (dl_num_workers dl)) (dispatcher s)"
    and "puts_done (length batches) (nat (dl_num_workers dl)) (dispatcher s)
          \<le> length batches + nat (dl_num_workers dl)"
    and "key_queue s =
          drop (jobs_taken s)
            (take (puts_done (length batches) (nat (dl_num_workers dl)) (dispatcher s))
               (all_jobs batches (nat (dl_num_workers dl))))"
    and "mset (map fst (in_flight s))
          \<subseteq># mset [curr_idx s ..< min (jobs_taken s) (length batches)]"
    and "\<forall>r \<in> set (in_flight s). batch_of dl (batches ! fst r) = Inr (snd r)"
    and "curr_idx s \<notin> fst ` set (data_buffer s)"
    and "curr_idx s \<le> length batches"
    and "iter_sync (dl_dataset dl) (dl_batchify_fn dl) (take (curr_idx s) batches)
          = (yielded s, None)"
    and "\<forall>k rest. dispatcher s = Enqueue k rest \<longrightarrow> rest = drop k batches"
    and "phase_inv (length batches) (nat (dl_num_workers dl)) n s"
    and "put_log s =
          take (puts_done (length batches) (nat (dl_num_workers dl)) (dispatcher s))
            (all_jobs batches (nat (dl_num_workers dl)))"
    and "n_got s = length (data_buffer s) + curr_idx s"
  using assms unfolding pass_inv_def by blast+

lemma pass_invI:
  assumes "length (workers s) = nat (dl_num_workers dl)"
    and "length (key_queue s) \<le> maxsize"
    and "length (data_queue s) \<le> maxsize"
    and "jobs_taken s \<le> puts_done (length batches) (nat (dl_num_workers dl)) (dispatcher s)"
    and "puts_done (length batches) (nat (dl_num_workers dl)) (dispatcher s)
          \<le> length batches + nat (dl_num_workers dl)"
    and "key_queue s =
          drop (jobs_taken s)
            (take (puts_done (length batches) (nat (dl_num_workers dl)) (dispatcher s))
               (all_jobs batches (nat (dl_num_workers dl))))"
    and "mset (map fst (in_flight s))
          \<subseteq># mset [curr_idx s ..< min (jobs_taken s) (length batches)]"
    and "\<forall>r \<in> set (in_flight s). batch_of dl (batches ! fst r) = Inr (snd r)"
    and "curr_idx s \<notin> fst ` set (data_buffer s)"
    and "curr_idx s \<le> length batches"
    and "iter_sync (dl_dataset dl) (dl_batchify_fn dl) (take (curr_idx s) batches)
          = (yielded s, None)"
    and "\<forall>k rest. dispatcher s = Enqueue k rest \<longrightarrow> rest = drop k batches"
    and "phase_inv (length batches) (nat (dl_num_workers dl)) n s"
    and "put_log s =
          take (puts_done (length batches) (nat (dl_num_workers dl)) (dispatcher s))
            (all_jobs batches (nat (dl_num_workers dl)))"
    and "n_got s = length (data_buffer s) + curr_idx s"
  shows "pass_inv dl batches n s"
  unfolding pass_inv_def using assms by blast

lemma phase_inv_workers:
  assumes "phase_inv m W n s"
    and "dispatcher s' = dispatcher s" "data_buffer s' = data_buffer s"
    and "curr_idx s' = curr_idx s" "sampler_state s' = sampler_state s"
    and "\<And>v. terminated (workers s ! v) \<Longrightarrow> terminated (workers s' ! v)"
    and "(\<exists>k rest. dispatcher s = Enqueue k rest) \<or> (\<exists>r. dispatcher s = Drain r)
          \<Longrightarrow> Terminated None \<notin> set (workers s')"
  shows "phase_inv m W n s'"
  using assms by (cases "dispatcher s") (auto simp: phase_inv_def)


lemma worker_take_inv:
  assumes inv: "pass_inv dl batches n s" and w: "w < length (workers s)"
    and idle: "workers s ! w = Idle" and kq: "key_queue s = job # kq"
    and s': "s' = s\<lparr>key_queue := kq,
                    workers := (workers s)
                      [w := (case worker_iteration (dl_dataset dl) (dl_batchify_fn dl) job of
                               Break \<Rightarrow> Terminated None
                             | Raised e \<Rightarrow> Terminated (Some e)
                             | Put r \<Rightarrow> Publishing r)]\<rparr>"
  shows "pass_inv dl batches n s'"
proof -
  let ?W = "nat (dl_num_workers dl)"
  let ?m = "length batches"
  let ?p = "puts_done ?m ?W (dispatcher s)"
  let ?AJ = "all_jobs batches ?W"
  let ?i = "jobs_taken s"
  let ?x = "case worker_iteration (dl_dataset dl) (dl_batchify_fn dl) job of
              Break \<Rightarrow> Terminated None
            | Raised e \<Rightarrow> Terminated (Some e)
            | Put r \<Rightarrow> Publishing r"
  note I = pass_invD[OF inv]
  have hd: "?i < ?p" "?i < length ?AJ" "job = ?AJ ! ?i" "kq = drop (Suc ?i) (take ?p ?AJ)"
    using key_queue_head[of ?i ?p ?AJ job kq] I(6) kq by simp_all
  have bx: "busy ?x = 1" by (simp split: worker_action.splits)
  have ws': "workers s' = (workers s)[w := ?x]" and same: "dispatcher s' = dispatcher s"
    "data_queue s' = data_queue s" "data_buffer s' = data_buffer s" "curr_idx s' = curr_idx s"
    "yielded s' = yielded s" "sampler_state s' = sampler_state s" "key_queue s' = kq"
    "put_log s' = put_log s" "n_got s' = n_got s"
    using s' by simp_all
  have jt: "jobs_taken s' = Suc ?i"
    using sum_list_map_update[OF w, of busy ?x] idle bx
    by (simp add: jobs_taken_def ws' same)
  have fl: "mset (in_flight s') = mset (in_flight s) + mset (held ?x)"
    using mset_concat_map_update[OF w, of held ?x] idle
    by (simp add: in_flight_def ws' same)
  have hx: "(?i < ?m \<longrightarrow> (held ?x = [] \<or> (\<exists>b. held ?x = [(?i, b)] \<and> batch_of dl (batches ! ?i) = Inr b))
              \<and> ?x \<noteq> Terminated None)
          \<and> (?m \<le> ?i \<longrightarrow> held ?x = [])"
  proof (cases "?i < ?m")
    case True
    then have "job = (Some ?i, batches ! ?i)" using hd(3) by (simp add: all_jobs_nth_job)
    then show ?thesis using True
      by (cases "batch_of dl (batches ! ?i)") (simp_all add: worker_iteration_job)
  next
    case False
    then have "job = (None, [])" using hd(2,3) by (simp add: all_jobs_nth_sentinel all_jobs_length)
    then show ?thesis using False by (simp add: worker_iteration_sentinel)
  qed
  have ci: "curr_idx s \<le> ?i" by (simp add: jobs_taken_def)
  have tk: "mset (map fst (in_flight s')) \<subseteq># mset [curr_idx s' ..< min (jobs_taken s') ?m]"
  proof (cases "?i < ?m")
    case True
    have m0: "min ?i ?m = ?i" using True by simp
    have m1: "min (jobs_taken s') ?m = Suc ?i" using True by (simp add: jt)
    have up: "mset [curr_idx s ..< Suc ?i] = mset [curr_idx s ..< ?i] + {#?i#}"
      using ci by simp
    have old: "mset (map fst (in_flight s)) \<subseteq># mset [curr_idx s ..< ?i]"
      using I(7) unfolding m0 .
    have sub: "mset (map fst (held ?x)) \<subseteq># {#?i#}" using hx True by auto
    have "mset (map fst (in_flight s')) = mset (map fst (in_flight s)) + mset (map fst (held ?x))"
      using fl by (metis image_mset_union mset_map)
    also have "\<dots> \<subseteq># mset [curr_idx s ..< ?i] + {#?i#}"
      using old sub by (rule subset_mset.add_mono)
    finally have "mset (map fst (in_flight s')) \<subseteq># mset [curr_idx s ..< Suc ?i]"
      unfolding up .
    then show ?thesis unfolding m1 same(4) .
  next
    case False
    have m1: "min (jobs_taken s') ?m = min ?i ?m" using False by (simp add: jt)
    have "held ?x = []" using hx False by simp
    then have "mset (in_flight s') = mset (in_flight s)" using fl by simp
    then have e: "mset (map fst (in_flight s')) = mset (map fst (in_flight s))"
      by (metis mset_map)
    show ?thesis unfolding e m1 same(4) by (rule I(7))
  qed
  have ct: "\<forall>r \<in> set (in_flight s'). batch_of dl (batches ! fst r) = Inr (snd r)"
  proof
    fix r assume "r \<in> set (in_flight s')"
    then have "r \<in># mset (in_flight s) + mset (held ?x)" using fl by (metis set_mset_mset)
    then have "r \<in> set (in_flight s) \<or> r \<in> set (held ?x)" by auto
    then show "batch_of dl (batches ! fst r) = Inr (snd r)"
    proof
      assume "r \<in> set (in_flight s)"
      then show ?thesis using I(8) by blast
    next
      assume r: "r \<in> set (held ?x)"
      show ?thesis
      proof (cases "?i < ?m")
        case True
        then show ?thesis using hx r by auto
      next
        case False
        then show ?thesis using hx r by simp
      qed
    qed
  qed
  have tm: "\<And>v. terminated (workers s ! v) \<Longrightarrow> terminated (workers s' ! v)"
  proof -
    fix v assume t: "terminated (workers s ! v)"
    then have "v \<noteq> w" using idle by auto
    then show "terminated (workers s' ! v)" using t by (simp add: ws')
  qed
  have nt: "(\<exists>k rest. dispatcher s = Enqueue k rest) \<or> (\<exists>r. dispatcher s = Drain r)
          \<Longrightarrow> Terminated None \<notin> set (workers s')"
  proof -
    assume ph: "(\<exists>k rest. dispatcher s = Enqueue k rest) \<or> (\<exists>r. dispatcher s = Drain r)"
    have pm: "?p \<le> ?m"
      using ph I(13) by (cases "dispatcher s") (auto simp: phase_inv_def)
    then have "?i < ?m" using hd(1) by simp
    then have x: "?x \<noteq> Terminated None" using hx by blast
    have old: "Terminated None \<notin> set (workers s)"
      using ph I(13) by (cases "dispatcher s") (auto simp: phase_inv_def)
    have "set (workers s') \<subseteq> insert ?x (set (workers s))"
      unfolding ws' by (rule set_update_subset_insert)
    then show "Terminated None \<notin> set (workers s')" using x old by auto
  qed
  show ?thesis
  proof (rule pass_invI)
    show "length (workers s') = ?W" using I(1) by (simp add: ws')
    show "length (key_queue s') \<le> maxsize" using I(2) kq by (simp add: same)
    show "length (data_queue s') \<le> maxsize" using I(3) by (simp add: same)
    show "jobs_taken s' \<le> puts_done ?m ?W (dispatcher s')" using hd(1) by (simp add: jt same)
    show "puts_done ?m ?W (dispatcher s') \<le> ?m + ?W" using I(5) by (simp add: same)
    show "key_queue s' = drop (jobs_taken s') (take (puts_done ?m ?W (dispatcher s')) ?AJ)"
      using hd(4) by (simp add: jt same)
    show "mset (map fst (in_flight s')) \<subseteq># mset [curr_idx s' ..< min (jobs_taken s') ?m]"
      by (rule tk)
    show "\<forall>r \<in> set (in_flight s'). batch_of dl (batches ! fst r) = Inr (snd r)" by (rule ct)
    show "curr_idx s' \<notin> fst ` set (data_buffer s')" using I(9) by (simp add: same)
    show "curr_idx s' \<le> ?m" using I(10) by (simp add: same)
    show "iter_sync (dl_dataset dl) (dl_batchify_fn dl) (take (curr_idx s') batches)
          = (yielded s', None)" using I(11) by (simp add: same)
    show "\<forall>k rest. dispatcher s' = Enqueue k rest \<longrightarrow> rest = drop k batches"
      using I(12) by (simp add: same)
    show "phase_inv ?m ?W n s'"
      by (rule phase_inv_workers[OF I(13) same(1) same(3) same(4) same(6) tm nt])
    show "put_log s' = take (puts_done ?m ?W (dispatcher s')) ?AJ"
      using I(14) by (simp add: same)
    show "n_got s' = length (data_buffer s') + curr_idx s'" using I(15) by (simp add: same)
  qed
qed

lemma worker_publish_inv:
  assumes inv: "pass_inv dl batches n s" and w: "w < length (workers s)"
    and pub: "workers s ! w = Publishing r" and room: "length (data_queue s) < maxsize"
    and s': "s' = s\<lparr>data_queue := data_queue s @ [r], workers := (workers s)[w := Idle]\<rparr>"
  shows "pass_inv dl batches n s'"
proof -
  let ?W = "nat (dl_num_workers dl)"
  let ?m = "length batches"
  note I = pass_invD[OF inv]
  have ws': "workers s' = (workers s)[w := Idle]" and same: "dispatcher s' = dispatcher s"
    "data_queue s' = data_queue s @ [r]" "data_buffer s' = data_buffer s"
    "curr_idx s' = curr_idx s" "yielded s' = yielded s" "sampler_state s' = sampler_state s"
    "key_queue s' = key_queue s" "put_log s' = put_log s" "n_got s' = n_got s"
    using s' by simp_all
  have jt: "jobs_taken s' = jobs_taken s"
    using sum_list_map_update[OF w, of busy Idle] pub
    by (simp add: jobs_taken_def ws' same)
  have fl: "mset (in_flight s') = mset (in_flight s)"
    using mset_concat_map_update[OF w, of held Idle] pub
    by (simp add: in_flight_def ws' same)
  then have e: "mset (map fst (in_flight s')) = mset (map fst (in_flight s))"
    by (metis mset_map)
  have st: "set (in_flight s') = set (in_flight s)" using fl by (rule mset_eq_setD)
  have tm: "\<And>v. terminated (workers s ! v) \<Longrightarrow> terminated (workers s' ! v)"
  proof -
    fix v assume t: "terminated (workers s ! v)"
    then have "v \<noteq> w" using pub by auto
    then show "terminated (workers s' ! v)" using t by (simp add: ws')
  qed
  have nt: "(\<exists>k rest. dispatcher s = Enqueue k rest) \<or> (\<exists>r. dispatcher s = Drain r)
          \<Longrightarrow> Terminated None \<notin> set (workers s')"
  proof -
    assume ph: "(\<exists>k rest. dispatcher s = Enqueue k rest) \<or> (\<exists>r. dispatcher s = Drain r)"
    have old: "Terminated None \<notin> set (workers s)"
      using ph I(13) by (cases "dispatcher s") (auto simp: phase_inv_def)
    have "set (workers s') \<subseteq> insert Idle (set (workers s))"
      unfolding ws' by (rule set_update_subset_insert)
    then show "Terminated None \<notin> set (workers s')" using old by auto
  qed
  show ?thesis
  proof (rule pass_invI)
    show "length (workers s') = ?W" using I(1) by (simp add: ws')
    show "length (key_queue s') \<le> maxsize" using I(2) by (simp add: same)
    show "length (data_queue s') \<le> maxsize" using room by (simp add: same)
    show "jobs_taken s' \<le> puts_done ?m ?W (dispatcher s')" using I(4) by (simp add: jt same)
    show "puts_done ?m ?W (dispatcher s') \<le> ?m + ?W" using I(5) by (simp add: same)
    show "key_queue s' = drop (jobs_taken s') (take (puts_done ?m ?W (dispatcher s'))
            (all_jobs batches ?W))"
      using I(6) by (simp add: jt same)
    show "mset (map fst (in_flight s')) \<subseteq># mset [curr_idx s' ..< min (jobs_taken s') ?m]"
      unfolding e jt same(4) by (rule I(7))
    show "\<forall>r \<in> set (in_flight s'). batch_of dl (batches ! fst r) = Inr (snd r)"
      unfolding st by (rule I(8))
    show "curr_idx s' \<notin> fst ` set (data_buffer s')" using I(9) by (simp add: same)
    show "curr_idx s' \<le> ?m" using I(10) by (simp add: same)
    show "iter_sync (dl_dataset dl) (dl_batchify_fn dl) (take (curr_idx s') batches)
          = (yielded s', None)" using I(11) by (simp add: same)
    show "\<forall>k rest. dispatcher s' = Enqueue k rest \<longrightarrow> rest = drop k batches"
      using I(12) by (simp add: same)
    show "phase_inv ?m ?W n s'"
      by (rule phase_inv_workers[OF I(13) same(1) same(3) same(4) same(6) tm nt])
    show "put_log s' = take (puts_done ?m ?W (dispatcher s')) (all_jobs batches ?W)"
      using I(14) by (simp add: same)
    show "n_got s' = length (data_buffer s') + curr_idx s'" using I(15) by (simp add: same)
  qed
qed

lemma worker_step_inv:
  assumes inv: "pass_inv dl batches n s" and st: "worker_step dl w s = Some s'"
  shows "pass_inv dl batches n s'"
proof -
  from st have w: "w < length (workers s)"
    by (cases "w < length (workers s)") (simp_all add: worker_step_def)
  show ?thesis
  proof (cases "workers s ! w")
    case Idle
    from st w Idle obtain job kq where kq: "key_queue s = job # kq"
      by (cases "key_queue s") (simp_all add: worker_step_def)
    from st w Idle kq have "s' = s\<lparr>key_queue := kq,
                    workers := (workers s)
                      [w := (case worker_iteration (dl_dataset dl) (dl_batchify_fn dl) job of
                               Break \<Rightarrow> Terminated None
                             | Raised e \<Rightarrow> Terminated (Some e)
                             | Put r \<Rightarrow> Publishing r)]\<rparr>"
      by (simp add: worker_step_def)
    then show ?thesis by (rule worker_take_inv[OF inv w Idle kq])
  next
    case (Publishing r)
    from st w Publishing have room: "length (data_queue s) < maxsize"
      by (cases "length (data_queue s) < maxsize") (simp_all add: worker_step_def)
    from st w Publishing room
    have "s' = s\<lparr>data_queue := data_queue s @ [r], workers := (workers s)[w := Idle]\<rparr>"
      by (simp add: worker_step_def)
    then show ?thesis by (rule worker_publish_inv[OF inv w Publishing room])
  next
    case (Terminated e)
    then show ?thesis using st w by (simp add: worker_step_def)
  qed
qed

lemma subset_upt_distinct:
  assumes "mset xs \<subseteq># mset [a ..< b]"
  shows "distinct xs"
proof -
  have "\<And>x. count (mset xs) x \<le> 1"
  proof -
    fix x
    have "count (mset xs) x \<le> count (mset [a ..< b]) x"
      using assms by (rule mset_subset_eq_count)
    also have "\<dots> \<le> 1" using distinct_upt[of a b] by (simp add: distinct_count_atmost_1)
    finally show "count (mset xs) x \<le> 1" .
  qed
  then show ?thesis by (metis count_mset_0_iff distinct_count_atmost_1 le_antisym not_less_eq_eq
      One_nat_def le0)
qed

lemma iter_sync_Cons:
  "iter_sync (dl_dataset dl) (dl_batchify_fn dl) (b # bs) =
     (case batch_of dl b of
        Inl e \<Rightarrow> ([], Some e)
      | Inr x \<Rightarrow>
          (case iter_sync (dl_dataset dl) (dl_batchify_fn dl) bs of (ys, r) \<Rightarrow> (x # ys, r)))"
  by (simp add: batch_of_def split: sum.splits)

lemma iter_sync_append_ok:
  "iter_sync ds bf xs = (ys, None) \<Longrightarrow> iter_sync ds bf zs = (ys', r) \<Longrightarrow>
   iter_sync ds bf (xs @ zs) = (ys @ ys', r)"
  by (induction xs arbitrary: ys) (auto split: sum.splits prod.splits)

lemma iter_sync_all_ok:
  "length ys = length bs \<Longrightarrow> \<forall>k < length bs. batch_of dl (bs ! k) = Inr (ys ! k) \<Longrightarrow>
   iter_sync (dl_dataset dl) (dl_batchify_fn dl) bs = (ys, None)"
proof (induction ys bs rule: list_induct2)
  case Nil
  then show ?case by simp
next
  case (Cons y ys b bs)
  have h: "batch_of dl b = Inr y" using Cons.prems by auto
  have "\<forall>k < length bs. batch_of dl (bs ! k) = Inr (ys ! k)" using Cons.prems by auto
  then have "iter_sync (dl_dataset dl) (dl_batchify_fn dl) bs = (ys, None)" by (rule Cons.IH)
  then show ?case using h by (simp add: iter_sync_Cons del: iter_sync.simps)
qed

lemma dispatcher_get_inv:
  assumes inv: "pass_inv dl batches n s" and d: "dispatcher s = Drain (Suc r)"
    and dq: "data_queue s = (t, b) # q"
    and f: "flush (AList.update t b (data_buffer s)) (curr_idx s) = (ys, buf', c')"
    and s': "s' = s\<lparr>data_queue := q, data_buffer := buf', curr_idx := c',
                     yielded := yielded s @ ys, n_got := Suc (n_got s),
                     dispatcher := Drain r\<rparr>"
  shows "pass_inv dl batches n s'"
proof -
  let ?W = "nat (dl_num_workers dl)"
  let ?m = "length batches"
  let ?c = "curr_idx s"
  let ?buf = "data_buffer s"
  let ?H = "concat (map held (workers s))"
  let ?x = "min (jobs_taken s) ?m"
  let ?Z = "zip [?c ..< c'] ys"
  note I = pass_invD[OF inv]
  have same: "workers s' = workers s" "key_queue s' = key_queue s" "data_queue s' = q"
    "data_buffer s' = buf'" "curr_idx s' = c'" "yielded s' = yielded s @ ys"
    "dispatcher s' = Drain r" "sampler_state s' = sampler_state s"
    "put_log s' = put_log s" "n_got s' = Suc (n_got s)"
    using s' by simp_all
  have fl: "in_flight s = ?H @ ((t, b) # q) @ ?buf" by (simp add: in_flight_def dq)
  have dist: "distinct (map fst (in_flight s))" using I(7) by (rule subset_upt_distinct)
  then have tn: "t \<notin> fst ` set ?buf" and db: "distinct (map fst ?buf)"
    unfolding fl by auto
  have u: "AList.update t b ?buf = ?buf @ [(t, b)]" using tn by (rule update_fresh)
  have du: "distinct (map fst (AList.update t b ?buf))" using db by (rule distinct_update)
  from flush_mset[OF f du] have cc: "?c \<le> c'" and ly: "length ys = c' - ?c"
    and mb: "mset (AList.update t b ?buf) = mset buf' + mset ?Z"
    and cn: "c' \<notin> fst ` set buf'"
    by blast+
  have fl': "in_flight s' = ?H @ q @ buf'" by (simp add: in_flight_def same)
  have mm: "mset (in_flight s) = mset (in_flight s') + mset ?Z"
  proof -
    have "mset (in_flight s) = mset ?H + mset q + mset (AList.update t b ?buf)"
      unfolding fl u by simp
    also have "\<dots> = mset ?H + mset q + (mset buf' + mset ?Z)" by (simp only: mb)
    also have "\<dots> = mset (in_flight s') + mset ?Z" unfolding fl' by simp
    finally show ?thesis .
  qed
  have fz: "map fst ?Z = [?c ..< c']" using ly by simp
  have tt: "mset (map fst (in_flight s)) = mset (map fst (in_flight s')) + mset [?c ..< c']"
  proof -
    have "mset (map fst (in_flight s)) = image_mset fst (mset (in_flight s') + mset ?Z)"
      using mm by (metis mset_map)
    also have "\<dots> = mset (map fst (in_flight s')) + mset (map fst ?Z)" by simp
    finally show ?thesis unfolding fz .
  qed
  have sz: "length buf' + c' = Suc (length ?buf + ?c)"
  proof -
    have "size (mset (AList.update t b ?buf)) = size (mset buf' + mset ?Z)" by (simp only: mb)
    then have "Suc (length ?buf) = length buf' + (c' - ?c)" unfolding u using ly by simp
    then show ?thesis using cc by simp
  qed
  have jt: "jobs_taken s' = jobs_taken s"
    using sz by (simp add: jobs_taken_def same dq)
  have cx: "c' \<le> ?x"
  proof (cases "?c < c'")
    case True
    then have "c' - 1 \<in># mset [?c ..< c']" by simp
    then have "c' - 1 \<in># mset (map fst (in_flight s))" unfolding tt by simp
    then have "c' - 1 \<in># mset [?c ..< ?x]" using I(7) by (rule mset_subset_eqD[rotated])
    then show ?thesis using True by auto
  next
    case False
    then have "c' = ?c" using cc by simp
    moreover have "?c \<le> jobs_taken s" by (simp add: jobs_taken_def)
    ultimately show ?thesis using I(10) by simp
  qed
  have sp: "mset [?c ..< ?x] = mset [?c ..< c'] + mset [c' ..< ?x]"
  proof -
    have "[?c ..< ?x] = [?c ..< c'] @ [c' ..< ?x]"
      using cc cx by (metis le_Suc_ex upt_add_eq_append)
    then show ?thesis by simp
  qed
  have tk: "mset (map fst (in_flight s')) \<subseteq># mset [c' ..< ?x]"
  proof -
    have "mset (map fst (in_flight s')) + mset [?c ..< c'] \<subseteq># mset [c' ..< ?x] + mset [?c ..< c']"
      using I(7) unfolding tt sp by (simp add: ac_simps)
    then show ?thesis by (rule subset_mset.add_le_imp_le_right)
  qed
  have st: "set (in_flight s') \<subseteq> set (in_flight s)" "set ?Z \<subseteq> set (in_flight s)"
  proof -
    have "set (in_flight s) = set_mset (mset (in_flight s') + mset ?Z)"
      using mm by (metis set_mset_mset)
    then show "set (in_flight s') \<subseteq> set (in_flight s)" "set ?Z \<subseteq> set (in_flight s)" by auto
  qed
  have cm: "c' \<le> ?m" using cx by simp
  have it: "iter_sync (dl_dataset dl) (dl_batchify_fn dl) (take c' batches)
              = (yielded s @ ys, None)"
  proof -
    let ?bs = "take (c' - ?c) (drop ?c batches)"
    have lb: "length ?bs = c' - ?c" using cm cc by simp
    have ok: "\<forall>k < length ?bs. batch_of dl (?bs ! k) = Inr (ys ! k)"
    proof (intro allI impI)
      fix k assume k: "k < length ?bs"
      then have kl: "k < c' - ?c" using lb by simp
      then have "?Z ! k = (?c + k, ys ! k)" using ly by simp
      moreover have "k < length ?Z" using kl ly by simp
      ultimately have "(?c + k, ys ! k) \<in> set ?Z" by (metis nth_mem)
      then have "(?c + k, ys ! k) \<in> set (in_flight s)" using st(2) by blast
      then have "batch_of dl (batches ! (?c + k)) = Inr (ys ! k)" using I(8) by force
      moreover have "?bs ! k = batches ! (?c + k)" using kl cm by simp
      ultimately show "batch_of dl (?bs ! k) = Inr (ys ! k)" by simp
    qed
    have "iter_sync (dl_dataset dl) (dl_batchify_fn dl) ?bs = (ys, None)"
      using iter_sync_all_ok[of ys ?bs dl] ly lb ok by simp
    from iter_sync_append_ok[OF I(11) this]
    have "iter_sync (dl_dataset dl) (dl_batchify_fn dl) (take ?c batches @ ?bs)
            = (yielded s @ ys, None)" .
    moreover have "take ?c batches @ ?bs = take c' batches"
      using cc take_add[of ?c "c' - ?c" batches] by simp
    ultimately show ?thesis by simp
  qed
  have ph: "phase_inv ?m ?W n s'"
  proof -
    from I(13) d have "length ?buf + ?c + Suc r = n" "Terminated None \<notin> set (workers s)"
      by (simp_all add: phase_inv_def)
    then show ?thesis using sz by (simp add: phase_inv_def same)
  qed
  show ?thesis
  proof (rule pass_invI)
    show "length (workers s') = ?W" using I(1) by (simp add: same)
    show "length (key_queue s') \<le> maxsize" using I(2) by (simp add: same)
    show "length (data_queue s') \<le> maxsize" using I(3) dq by (simp add: same)
    show "jobs_taken s' \<le> puts_done ?m ?W (dispatcher s')" using I(4) d by (simp add: jt same)
    show "puts_done ?m ?W (dispatcher s') \<le> ?m + ?W" by (simp add: same)
    show "key_queue s' = drop (jobs_taken s') (take (puts_done ?m ?W (dispatcher s'))
            (all_jobs batches ?W))"
      using I(6) d by (simp add: jt same)
    show "mset (map fst (in_flight s')) \<subseteq># mset [curr_idx s' ..< min (jobs_taken s') ?m]"
      unfolding jt same(5) by (rule tk)
    show "\<forall>r \<in> set (in_flight s'). batch_of dl (batches ! fst r) = Inr (snd r)"
      using I(8) st(1) by blast
    show "curr_idx s' \<notin> fst ` set (data_buffer s')" using cn by (simp add: same)
    show "curr_idx s' \<le> ?m" using cm by (simp add: same)
    show "iter_sync (dl_dataset dl) (dl_batchify_fn dl) (take (curr_idx s') batches)
          = (yielded s', None)" using it by (simp add: same)
    show "\<forall>k rest. dispatcher s' = Enqueue k rest \<longrightarrow> rest = drop k batches"
      by (simp add: same)
    show "phase_inv ?m ?W n s'" by (rule ph)
    show "put_log s' = take (puts_done ?m ?W (dispatcher s')) (all_jobs batches ?W)"
      using I(14) d by (simp add: same)
    show "n_got s' = length (data_buffer s') + curr_idx s'" using I(15) sz by (simp add: same)
  qed
qed

lemma dispatcher_put_inv:
  assumes inv: "pass_inv dl batches n s" and room: "length (key_queue s) < maxsize"
    and p: "puts_done (length batches) (nat (dl_num_workers dl)) d'
              = Suc (puts_done (length batches) (nat (dl_num_workers dl)) (dispatcher s))"
    and le: "puts_done (length batches) (nat (dl_num_workers dl)) d'
              \<le> length batches + nat (dl_num_workers dl)"
    and job: "job = all_jobs batches (nat (dl_num_workers dl))
                      ! puts_done (length batches) (nat (dl_num_workers dl)) (dispatcher s)"
    and s': "s' = s\<lparr>key_queue := key_queue s @ [job], put_log := put_log s @ [job],
                     dispatcher := d'\<rparr>"
    and enq: "\<forall>k rest. d' = Enqueue k rest \<longrightarrow> rest = drop k batches"
    and ph: "phase_inv (length batches) (nat (dl_num_workers dl)) n s'"
  shows "pass_inv dl batches n s'"
proof -
  let ?W = "nat (dl_num_workers dl)"
  let ?m = "length batches"
  let ?p = "puts_done ?m ?W (dispatcher s)"
  let ?AJ = "all_jobs batches ?W"
  note I = pass_invD[OF inv]
  have same: "workers s' = workers s" "key_queue s' = key_queue s @ [job]"
    "data_queue s' = data_queue s" "data_buffer s' = data_buffer s" "curr_idx s' = curr_idx s"
    "yielded s' = yielded s" "dispatcher s' = d'"
    "put_log s' = put_log s @ [job]" "n_got s' = n_got s"
    using s' by simp_all
  have jt: "jobs_taken s' = jobs_taken s" by (simp add: jobs_taken_def same)
  have fl: "in_flight s' = in_flight s" by (simp add: in_flight_def same)
  have pl: "?p < length ?AJ" using p le by (simp add: all_jobs_length)
  have tk: "take (Suc ?p) ?AJ = take ?p ?AJ @ [job]"
    using pl job by (simp add: take_Suc_conv_app_nth)
  have "jobs_taken s \<le> length (take ?p ?AJ)" using I(4) pl by simp
  then have kq: "drop (jobs_taken s) (take (Suc ?p) ?AJ) = key_queue s @ [job]"
    using I(6) tk by simp
  show ?thesis
  proof (rule pass_invI)
    show "length (workers s') = ?W" using I(1) by (simp add: same)
    show "length (key_queue s') \<le> maxsize" using room by (simp add: same)
    show "length (data_queue s') \<le> maxsize" using I(3) by (simp add: same)
    show "jobs_taken s' \<le> puts_done ?m ?W (dispatcher s')" using I(4) p by (simp add: jt same)
    show "puts_done ?m ?W (dispatcher s') \<le> ?m + ?W" using le by (simp add: same)
    show "key_queue s' = drop (jobs_taken s') (take (puts_done ?m ?W (dispatcher s')) ?AJ)"
      using kq p by (simp add: jt same)
    show "mset (map fst (in_flight s')) \<subseteq># mset [curr_idx s' ..< min (jobs_taken s') ?m]"
      unfolding jt fl same(5) by (rule I(7))
    show "\<forall>r \<in> set (in_flight s'). batch_of dl (batches ! fst r) = Inr (snd r)"
      unfolding fl by (rule I(8))
    show "curr_idx s' \<notin> fst ` set (data_buffer s')" using I(9) by (simp add: same)
    show "curr_idx s' \<le> ?m" using I(10) by (simp add: same)
    show "iter_sync (dl_dataset dl) (dl_batchify_fn dl) (take (curr_idx s') batches)
          = (yielded s', None)" using I(11) by (simp add: same)
    show "\<forall>k rest. dispatcher s' = Enqueue k rest \<longrightarrow> rest = drop k batches"
      using enq by (simp add: same)
    show "phase_inv ?m ?W n s'" by (rule ph)
    show "put_log s' = take (puts_done ?m ?W (dispatcher s')) ?AJ"
      using I(14) tk p by (simp add: same)
    show "n_got s' = length (data_buffer s') + curr_idx s'" using I(15) by (simp add: same)
  qed
qed

lemma dispatcher_move_inv:
  assumes inv: "pass_inv dl batches n s"
    and p: "puts_done (length batches) (nat (dl_num_workers dl)) d'
              = puts_done (length batches) (nat (dl_num_workers dl)) (dispatcher s)"
    and same: "workers s' = workers s" "key_queue s' = key_queue s"
      "data_queue s' = data_queue s" "data_buffer s' = data_buffer s"
      "curr_idx s' = curr_idx s" "yielded s' = yielded s" "dispatcher s' = d'"
      "put_log s' = put_log s" "n_got s' = n_got s"
    and enq: "\<forall>k rest. d' = Enqueue k rest \<longrightarrow> rest = drop k batches"
    and ph: "phase_inv (length batches) (nat (dl_num_workers dl)) n s'"
  shows "pass_inv dl batches n s'"
proof -
  let ?W = "nat (dl_num_workers dl)"
  let ?m = "length batches"
  note I = pass_invD[OF inv]
  have jt: "jobs_taken s' = jobs_taken s" by (simp add: jobs_taken_def same)
  have fl: "in_flight s' = in_flight s" by (simp add: in_flight_def same)
  show ?thesis
  proof (rule pass_invI)
    show "length (workers s') = ?W" using I(1) by (simp add: same)
    show "length (key_queue s') \<le> maxsize" using I(2) by (simp add: same)
    show "length (data_queue s') \<le> maxsize" using I(3) by (simp add: same)
    show "jobs_taken s' \<le> puts_done ?m ?W (dispatcher s')" using I(4) p by (simp add: jt same)
    show "puts_done ?m ?W (dispatcher s') \<le> ?m + ?W" using I(5) p by (simp add: same)
    show "key_queue s' = drop (jobs_taken s') (take (puts_done ?m ?W (dispatcher s'))
            (all_jobs batches ?W))"
      using I(6) p by (simp add: jt same)
    show "mset (map fst (in_flight s')) \<subseteq># mset [curr_idx s' ..< min (jobs_taken s') ?m]"
      unfolding jt fl same(5) by (rule I(7))
    show "\<forall>r \<in> set (in_flight s'). batch_of dl (batches ! fst r) = Inr (snd r)"
      unfolding fl by (rule I(8))
    show "curr_idx s' \<notin> fst ` set (data_buffer s')" using I(9) by (simp add: same)
    show "curr_idx s' \<le> ?m" using I(10) by (simp add: same)
    show "iter_sync (dl_dataset dl) (dl_batchify_fn dl) (take (curr_idx s') batches)
          = (yielded s', None)" using I(11) by (simp add: same)
    show "\<forall>k rest. dispatcher s' = Enqueue k rest \<longrightarrow> rest = drop k batches"
      using enq by (simp add: same)
    show "phase_inv ?m ?W n s'" by (rule ph)
    show "put_log s' = take (puts_done ?m ?W (dispatcher s')) (all_jobs batches ?W)"
      using I(14) p by (simp add: same)
    show "n_got s' = length (data_buffer s') + curr_idx s'" using I(15) by (simp add: same)
  qed
qed

lemma dispatcher_step_inv:
  assumes inv: "pass_inv dl batches n s" and st: "dispatcher_step dl s = Some s'"
  shows "pass_inv dl batches n s'"
proof (cases "dispatcher s")
  case (Enqueue k rest)
  let ?W = "nat (dl_num_workers dl)"
  let ?m = "length batches"
  note I = pass_invD[OF inv]
  from I(12) Enqueue have r: "rest = drop k batches" by simp
  from I(13) Enqueue have ph: "k \<le> ?m" "data_buffer s = []" "curr_idx s = 0"
    "BatchSampler_len (sampler_state s) = n" "Terminated None \<notin> set (workers s)"
    by (simp_all add: phase_inv_def)
  show ?thesis
  proof (cases rest)
    case Nil
    then have km: "k = ?m" using r ph(1) by simp
    have s': "s' = s\<lparr>dispatcher := Drain n, data_buffer := [], curr_idx := 0\<rparr>"
      using st Enqueue Nil ph(4) by (simp add: dispatcher_step_def)
    show ?thesis
    proof (rule dispatcher_move_inv[OF inv, of "Drain n"])
      show "puts_done ?m ?W (Drain n) = puts_done ?m ?W (dispatcher s)"
        using Enqueue km by simp
      show "phase_inv ?m ?W n s'" using ph by (simp add: s' phase_inv_def)
    qed (simp_all add: s' ph)
  next
    case (Cons b rest')
    then have lt: "k < ?m" using r ph(1) by (cases "k = ?m") auto
    have b: "b = batches ! k" and r': "rest' = drop (Suc k) batches"
      using Cons r lt by (simp_all add: Cons_nth_drop_Suc[symmetric])
    from st Enqueue Cons have room: "length (key_queue s) < maxsize"
      by (cases "length (key_queue s) < maxsize") (simp_all add: dispatcher_step_def)
    have s': "s' = s\<lparr>key_queue := key_queue s @ [(Some k, b)],
                     put_log := put_log s @ [(Some k, b)],
                     dispatcher := Enqueue (Suc k) rest'\<rparr>"
      using st Enqueue Cons room by (simp add: dispatcher_step_def)
    show ?thesis
    proof (rule dispatcher_put_inv[OF inv room _ _ _ s'])
      show "puts_done ?m ?W (Enqueue (Suc k) rest') = Suc (puts_done ?m ?W (dispatcher s))"
        using Enqueue by simp
      show "puts_done ?m ?W (Enqueue (Suc k) rest') \<le> ?m + ?W" using lt by simp
      show "(Some k, b) = all_jobs batches ?W ! puts_done ?m ?W (dispatcher s)"
        using Enqueue lt b by (simp add: all_jobs_nth_job)
      show "\<forall>k' rest. Enqueue (Suc k) rest' = Enqueue k' rest \<longrightarrow> rest = drop k' batches"
        using r' by simp
      show "phase_inv ?m ?W n s'" using ph lt by (simp add: s' phase_inv_def)
    qed
  qed
next
  case (Drain r)
  let ?W = "nat (dl_num_workers dl)"
  let ?m = "length batches"
  note I = pass_invD[OF inv]
  show ?thesis
  proof (cases r)
    case 0
    have s': "s' = s\<lparr>dispatcher := Sentinels ?W\<rparr>"
      using st Drain 0 by (simp add: dispatcher_step_def)
    from I(13) Drain 0 have "length (data_buffer s) + curr_idx s = n" by (simp add: phase_inv_def)
    then have ph: "phase_inv ?m ?W n s'" by (simp add: s' phase_inv_def)
    show ?thesis
    proof (rule dispatcher_move_inv[OF inv, of "Sentinels ?W"])
      show "phase_inv ?m ?W n s'" by (rule ph)
    qed (simp_all add: s' Drain)
  next
    case (Suc r')
    from st Drain Suc obtain t b q where dq: "data_queue s = (t, b) # q"
      by (cases "data_queue s") (auto simp: dispatcher_step_def)
    obtain ys buf' c' where f: "flush (AList.update t b (data_buffer s)) (curr_idx s) = (ys, buf', c')"
      by (metis prod_cases3)
    have s': "s' = s\<lparr>data_queue := q, data_buffer := buf', curr_idx := c',
                     yielded := yielded s @ ys, n_got := Suc (n_got s),
                     dispatcher := Drain r'\<rparr>"
      using st Drain Suc dq f by (simp add: dispatcher_step_def)
    show ?thesis using Drain Suc by (intro dispatcher_get_inv[OF inv _ dq f s']) simp
  qed
next
  case (Sentinels r)
  let ?W = "nat (dl_num_workers dl)"
  let ?m = "length batches"
  note I = pass_invD[OF inv]
  from I(13) Sentinels have ph: "r \<le> ?W" "length (data_buffer s) + curr_idx s = n"
    by (simp_all add: phase_inv_def)
  show ?thesis
  proof (cases r)
    case 0
    have s': "s' = s\<lparr>dispatcher := Join 0\<rparr>"
      using st Sentinels 0 by (simp add: dispatcher_step_def)
    have ph': "phase_inv ?m ?W n s'" using ph by (simp add: s' phase_inv_def)
    show ?thesis
    proof (rule dispatcher_move_inv[OF inv, of "Join 0"])
      show "phase_inv ?m ?W n s'" by (rule ph')
    qed (simp_all add: s' Sentinels 0)
  next
    case (Suc r')
    from st Sentinels Suc have room: "length (key_queue s) < maxsize"
      by (cases "length (key_queue s) < maxsize") (simp_all add: dispatcher_step_def)
    have s': "s' = s\<lparr>key_queue := key_queue s @ [(None, [])],
                     put_log := put_log s @ [(None, [])],
                     dispatcher := Sentinels r'\<rparr>"
      using st Sentinels Suc room by (simp add: dispatcher_step_def)
    show ?thesis
    proof (rule dispatcher_put_inv[OF inv room _ _ _ s'])
      show "puts_done ?m ?W (Sentinels r') = Suc (puts_done ?m ?W (dispatcher s))"
        using Sentinels Suc ph(1) by simp
      show "puts_done ?m ?W (Sentinels r') \<le> ?m + ?W" by simp
      show "(None, []) = all_jobs batches ?W ! puts_done ?m ?W (dispatcher s)"
        using Sentinels Suc ph(1) by (simp add: all_jobs_nth_sentinel)
      show "\<forall>k rest. Sentinels r' = Enqueue k rest \<longrightarrow> rest = drop k batches" by simp
      show "phase_inv ?m ?W n s'" using ph Suc by (simp add: s' phase_inv_def)
    qed
  qed
next
  case (Join w)
  let ?W = "nat (dl_num_workers dl)"
  let ?m = "length batches"
  note I = pass_invD[OF inv]
  from I(13) Join have ph: "w \<le> ?W" "\<forall>v < w. terminated (workers s ! v)"
    "length (data_buffer s) + curr_idx s = n"
    by (simp_all add: phase_inv_def)
  show ?thesis
  proof (cases "w < length (workers s)")
    case True
    from st Join True have t: "terminated (workers s ! w)"
      by (cases "workers s ! w") (simp_all add: dispatcher_step_def)
    have s': "s' = s\<lparr>dispatcher := Join (Suc w)\<rparr>"
      using st Join True t by (cases "workers s ! w") (simp_all add: dispatcher_step_def)
    have "\<forall>v < Suc w. terminated (workers s ! v)" using ph(2) t by (auto simp: less_Suc_eq)
    then have ph': "phase_inv ?m ?W n s'" using ph True I(1) by (simp add: s' phase_inv_def)
    show ?thesis
    proof (rule dispatcher_move_inv[OF inv, of "Join (Suc w)"])
      show "phase_inv ?m ?W n s'" by (rule ph')
    qed (simp_all add: s' Join)
  next
    case False
    then have wW: "w = ?W" using ph(1) I(1) by simp
    have s': "s' = s\<lparr>dispatcher := Done\<rparr>"
      using st Join False by (simp add: dispatcher_step_def)
    have ph': "phase_inv ?m ?W n s'" using ph wW by (simp add: s' phase_inv_def)
    show ?thesis
    proof (rule dispatcher_move_inv[OF inv, of Done])
      show "phase_inv ?m ?W n s'" by (rule ph')
    qed (simp_all add: s' Join)
  qed
next
  case Done
  then show ?thesis using st by (simp add: dispatcher_step_def)
qed

lemma start_inv:
  assumes "BatchSampler_iter (dl_batch_sampler dl) idxs = (batches, bs')"
  shows "pass_inv dl batches (BatchSampler_len bs') (iter_parallel_start dl idxs)"
proof -
  have s: "iter_parallel_start dl idxs =
      \<lparr>key_queue = [], data_queue = [],
       workers = replicate (nat (dl_num_workers dl)) Idle,
       dispatcher = Enqueue 0 batches,
       data_buffer = [], curr_idx = 0, yielded = [],
       sampler_state = bs', put_log = [], n_got = 0\<rparr>"
    using assms by (simp add: iter_parallel_start_def)
  have b: "sum_list (map busy (replicate W Idle)) = 0" for W by (induction W) simp_all
  have h: "concat (map held (replicate W Idle)) = []" for W by (induction W) simp_all
  show ?thesis
    unfolding s
    by (rule pass_invI) (simp_all add: jobs_taken_def in_flight_def b h phase_inv_def)
qed

lemma run_inv:
  assumes "pass_inv dl batches n s"
  shows "pass_inv dl batches n (run dl es s)"
  using assms
proof (induction es arbitrary: s)
  case Nil
  then show ?case by simp
next
  case (Cons e es)
  have "pass_inv dl batches n (case step dl e s of None \<Rightarrow> s | Some s' \<Rightarrow> s')"
  proof (cases "step dl e s")
    case None
    then show ?thesis using Cons.prems by simp
  next
    case (Some s')
    have "pass_inv dl batches n s'"
    proof (cases e)
      case Dispatcher
      then have "dispatcher_step dl s = Some s'" using Some by simp
      then show ?thesis by (rule dispatcher_step_inv[OF Cons.prems])
    next
      case (Worker w)
      then have "worker_step dl w s = Some s'" using Some by simp
      then show ?thesis by (rule worker_step_inv[OF Cons.prems])
    qed
    then show ?thesis using Some by simp
  qed
  from Cons.IH[OF this] show ?case by simp
qed

lemma reach_inv:
  assumes "BatchSampler_iter (dl_batch_sampler dl) idxs = (batches, bs')"
  shows "pass_inv dl batches (BatchSampler_len bs') (run dl es (iter_parallel_start dl idxs))"
  by (rule run_inv[OF start_inv[OF assms]])

lemma yielded_length:
  assumes "pass_inv dl batches n s"
  shows "length (yielded s) = curr_idx s"
proof -
  note I = pass_invD[OF assms]
  have "length (yielded s) = length (take (curr_idx s) batches)"
    using I(11) by (rule iter_sync_length)
  then show ?thesis using I(10) by simp
qed

lemma key_queue_count:
  assumes "pass_inv dl batches n s"
  shows "length (key_queue s) + jobs_taken s
           = puts_done (length batches) (nat (dl_num_workers dl)) (dispatcher s)"
proof -
  note I = pass_invD[OF assms]
  have "length (key_queue s)
      = length (drop (jobs_taken s)
          (take (puts_done (length batches) (nat (dl_num_workers dl)) (dispatcher s))
             (all_jobs batches (nat (dl_num_workers dl)))))"
    using I(6) by simp
  then show ?thesis using I(4) I(5) by (simp add: all_jobs_length)
qed

lemma enqueue_bound:
  assumes "pass_inv dl batches n s" and "dispatcher s = Enqueue k rest"
  shows "k \<le> 2 * maxsize + nat (dl_num_workers dl)"
proof -
  note I = pass_invD[OF assms(1)]
  from I(13) assms(2) have e: "data_buffer s = []" "curr_idx s = 0"
    by (simp_all add: phase_inv_def)
  have "sum_list (map busy (workers s)) \<le> nat (dl_num_workers dl)"
    using sum_list_busy_le[of "workers s"] I(1) by simp
  then have "jobs_taken s \<le> nat (dl_num_workers dl) + maxsize"
    using I(3) e by (simp add: jobs_taken_def)
  moreover have "length (key_queue s) + jobs_taken s = k"
    using key_queue_count[OF assms(1)] assms(2) by simp
  ultimately show ?thesis using I(2) by simp
qed

lemma enqueue_never_ends:
  assumes "pass_inv dl batches n s" and "\<exists>k rest. dispatcher s = Enqueue k rest"
    and "2 * maxsize + nat (dl_num_workers dl) < length batches"
  shows "\<exists>k rest. dispatcher (run dl es s) = Enqueue k rest"
  using assms(1,2)
proof (induction es arbitrary: s)
  case Nil
  then show ?case by simp
next
  case (Cons e es)
  let ?s1 = "case step dl e s of None \<Rightarrow> s | Some s' \<Rightarrow> s'"
  have inv1: "pass_inv dl batches n ?s1"
    using run_inv[OF Cons.prems(1), of "[e]"] by simp
  from Cons.prems(2) obtain k rest where d: "dispatcher s = Enqueue k rest" by blast
  have "\<exists>k rest. dispatcher ?s1 = Enqueue k rest"
  proof (cases e)
    case (Worker w)
    have "dispatcher ?s1 = dispatcher s"
      using Worker by (auto simp: worker_step_def split: option.splits if_splits worker.splits list.splits)
    then show ?thesis using d by simp
  next
    case Dispatcher
    show ?thesis
    proof (cases rest)
      case Nil
      have "rest = drop k batches" using pass_invD(12)[OF Cons.prems(1)] d by simp
      moreover have "k \<le> length batches"
        using pass_invD(13)[OF Cons.prems(1)] d by (simp add: phase_inv_def)
      ultimately have "k = length batches" using Nil by simp
      then show ?thesis using enqueue_bound[OF Cons.prems(1) d] assms(3) by simp
    next
      case (Cons b rest')
      then show ?thesis using Dispatcher d by (simp add: dispatcher_step_def)
    qed
  qed
  from Cons.IH[OF inv1 this] show ?case by simp
qed

lemma subset_add_mset_notin:
  assumes "A \<subseteq># add_mset a B" "a \<notin># A"
  shows "A \<subseteq># B"
proof (rule mset_subset_eqI)
  fix x
  show "count A x \<le> count B x"
  proof (cases "x = a")
    case True
    then show ?thesis using assms(2) by (simp add: not_in_iff)
  next
    case False
    have "count A x \<le> count (add_mset a B) x" using assms(1) by (rule mset_subset_eq_count)
    then show ?thesis using False by simp
  qed
qed

lemma buffer_full_empty:
  assumes "mset xs \<subseteq># mset [c ..< m]" "c \<notin> set xs" "length xs + c = m"
  shows "xs = []"
proof (cases "c < m")
  case True
  have "mset [c ..< m] = add_mset c (mset [Suc c ..< m])" using True by (simp add: upt_conv_Cons)
  then have "mset xs \<subseteq># mset [Suc c ..< m]"
    using assms(1,2) subset_add_mset_notin[of "mset xs" c "mset [Suc c ..< m]"] by simp
  then have "size (mset xs) \<le> size (mset [Suc c ..< m])" by (rule size_mset_mono)
  then show ?thesis using assms(3) True by simp
next
  case False
  then have "length xs = 0" using assms(3) by arith
  then show ?thesis by simp
qed

lemma complete_pass_yields_all:
  assumes inv: "pass_inv dl batches n s" and d: "dispatcher s = Done" and n: "n = length batches"
  shows "iter_sync (dl_dataset dl) (dl_batchify_fn dl) batches = (yielded s, None)"
proof -
  note I = pass_invD[OF inv]
  from I(13) d n have c: "length (data_buffer s) + curr_idx s = length batches"
    by (simp add: phase_inv_def)
  have "mset (map fst (data_buffer s)) \<subseteq># mset (map fst (in_flight s))"
    by (simp add: in_flight_def)
  also have "\<dots> \<subseteq># mset [curr_idx s ..< min (jobs_taken s) (length batches)]" by (rule I(7))
  also have "\<dots> \<subseteq># mset [curr_idx s ..< length batches]" by (rule upt_mset_mono) simp
  finally have sub: "mset (map fst (data_buffer s)) \<subseteq># mset [curr_idx s ..< length batches]" .
  have "map fst (data_buffer s) = []"
    using buffer_full_empty[OF sub] I(9) c by simp
  then have "curr_idx s = length batches" using c by simp
  then show ?thesis using I(11) by simp
qed

lemma sentinel_after_drain:
  assumes inv: "pass_inv dl batches n s"
    and "(None, []) \<in> set (key_queue s) \<or> Terminated None \<in> set (workers s)"
  shows "drained (dispatcher s)"
proof (rule ccontr)
  assume nd: "\<not> drained (dispatcher s)"
  note I = pass_invD[OF inv]
  let ?W = "nat (dl_num_workers dl)"
  let ?p = "puts_done (length batches) ?W (dispatcher s)"
  have p: "?p \<le> length batches" and nt: "Terminated None \<notin> set (workers s)"
    using nd I(13) by (cases "dispatcher s"; simp add: phase_inv_def)+
  then have "(None, []) \<in> set (key_queue s)" using assms(2) by simp
  then have "(None, []) \<in> set (drop (jobs_taken s) (take ?p (all_jobs batches ?W)))"
    using I(6) by simp
  then have "(None, []) \<in> set (take ?p (all_jobs batches ?W))" by (rule in_set_dropD)
  then show False using no_sentinel_among_jobs[OF p] by blast
qed

subsection \<open>The protocol of the generator\<close>

text \<open>
  The protocol of the generator, in every state that a pass reaches under any schedule.
  Both queues hold at most 65535 entries. The jobs put so far are an initial segment of
  the index batches ticketed \<open>0, 1, 2, ...\<close> in sampler order followed by one sentinel per
  worker, and \<open>key_queue\<close> holds those that no worker has taken yet. The results taken
  from \<open>data_queue\<close> are in the buffer or yielded; there are
  \<^verbatim>\<open>len(self._batch_sampler)\<close> of them once the generator has left its second loop, and
  only then is there a sentinel on \<open>key_queue\<close> or a worker stopped by one. When the pass is
  complete every worker has terminated.
\<close>

lemma parallel_pass_accounting:
  assumes "BatchSampler_iter (dl_batch_sampler dl) idxs = (batches, bs')"
      and "s = run dl es (iter_parallel_start dl idxs)"
      and "W = nat (dl_num_workers dl)"
  shows "length (key_queue s) \<le> 65535 \<and> length (data_queue s) \<le> 65535
       \<and> put_log s =
           take (puts_done (length batches) W (dispatcher s))
             (map (\<lambda>(idx, batch). (Some idx, batch)) (enumerate 0 batches)
              @ replicate W (None, []))
       \<and> key_queue s = drop (jobs_taken s) (put_log s)
       \<and> length (key_queue s) + jobs_taken s = puts_done (length batches) W (dispatcher s)
       \<and> n_got s = length (data_buffer s) + length (yielded s)
       \<and> (case dispatcher s of
             Enqueue k rest \<Rightarrow> rest = drop k batches \<and> n_got s = 0
           | Drain r \<Rightarrow> n_got s + r = BatchSampler_len bs'
           | Sentinels r \<Rightarrow> r \<le> W \<and> n_got s = BatchSampler_len bs'
           | Join w \<Rightarrow> n_got s = BatchSampler_len bs'
           | Done \<Rightarrow> n_got s = BatchSampler_len bs')
       \<and> ((None, []) \<in> set (key_queue s) \<or> Terminated None \<in> set (workers s)
            \<longrightarrow> drained (dispatcher s))
       \<and> (dispatcher s = Done \<longrightarrow>
            length (workers s) = W \<and> (\<forall>w < W. terminated (workers s ! w)))"
proof -
  let ?n = "BatchSampler_len bs'"
  have inv: "pass_inv dl batches ?n s" unfolding assms(2) by (rule reach_inv[OF assms(1)])
  note I = pass_invD[OF inv]
  have yl: "length (yielded s) = curr_idx s" by (rule yielded_length[OF inv])
  have c1: "length (key_queue s) \<le> 65535" using I(2) by (simp add: maxsize_def)
  have c2: "length (data_queue s) \<le> 65535" using I(3) by (simp add: maxsize_def)
  have c3: "put_log s =
           take (puts_done (length batches) W (dispatcher s))
             (map (\<lambda>(idx, batch). (Some idx, batch)) (enumerate 0 batches)
              @ replicate W (None, []))"
    using I(14) unfolding assms(3) all_jobs_def .
  have c4: "key_queue s = drop (jobs_taken s) (put_log s)"
    using I(6) unfolding I(14) .
  have c5: "length (key_queue s) + jobs_taken s = puts_done (length batches) W (dispatcher s)"
    unfolding assms(3) by (rule key_queue_count[OF inv])
  have c6: "n_got s = length (data_buffer s) + length (yielded s)"
    using I(15) yl by simp
  have c7: "(case dispatcher s of
             Enqueue k rest \<Rightarrow> rest = drop k batches \<and> n_got s = 0
           | Drain r \<Rightarrow> n_got s + r = ?n
           | Sentinels r \<Rightarrow> r \<le> W \<and> n_got s = ?n
           | Join w \<Rightarrow> n_got s = ?n
           | Done \<Rightarrow> n_got s = ?n)"
  proof (cases "dispatcher s")
    case (Enqueue k rest)
    then have "rest = drop k batches" using I(12) by simp
    moreover have "data_buffer s = []" "curr_idx s = 0"
      using I(13) Enqueue by (simp_all add: phase_inv_def)
    ultimately show ?thesis using Enqueue I(15) by simp
  next
    case (Drain r)
    then show ?thesis using I(13) I(15) by (simp add: phase_inv_def)
  next
    case (Sentinels r)
    then show ?thesis using I(13) I(15) by (simp add: phase_inv_def assms(3))
  next
    case (Join w)
    then show ?thesis using I(13) I(15) by (simp add: phase_inv_def)
  next
    case Done
    then show ?thesis using I(13) I(15) by (simp add: phase_inv_def)
  qed
  have c8: "(None, []) \<in> set (key_queue s) \<or> Terminated None \<in> set (workers s)
            \<longrightarrow> drained (dispatcher s)"
    using sentinel_after_drain[OF inv] by blast
  have c9: "dispatcher s = Done \<longrightarrow>
            length (workers s) = W \<and> (\<forall>w < W. terminated (workers s ! w))"
    using I(1) I(13) by (auto simp: phase_inv_def assms(3))
  show ?thesis by (intro conjI c1 c2 c3 c4 c5 c6 c7 c8 c9)
qed

subsection \<open>A pass that does not fit into the queues\<close>

text \<open>
  Claim C4 (dispatcher protocol), on a pass of more than \<open>2 * 65535 + W\<close> index batches,
  where \<open>W\<close> is the number of workers. The generator puts every job before it takes the
  first result. \<open>key_queue\<close> holds at most 65535 jobs, \<open>data_queue\<close> at most 65535 results
  and every worker at most one job, so at most \<open>2 * 65535 + W\<close> jobs are ever put: under
  any schedule, however long, the generator is still in its first loop, with an index batch
  that it has not put. No batch is yielded, no sentinel is put and no worker is stopped by
  one.
\<close>

theorem large_pass_blocks_in_enqueue:
  assumes "BatchSampler_iter (dl_batch_sampler dl) idxs = (batches, bs')"
      and "W = nat (dl_num_workers dl)"
      and "2 * 65535 + W < length batches"
      and "s = run dl es (iter_parallel_start dl idxs)"
  shows "(\<exists>k \<le> 2 * 65535 + W.
            dispatcher s = Enqueue k (drop k batches) \<and> drop k batches \<noteq> [])
       \<and> yielded s = []
       \<and> (None, []) \<notin> set (key_queue s)
       \<and> Terminated None \<notin> set (workers s)"
proof -
  have inv: "pass_inv dl batches (BatchSampler_len bs') s"
    unfolding assms(4) by (rule reach_inv[OF assms(1)])
  note I = pass_invD[OF inv]
  have b: "2 * maxsize + nat (dl_num_workers dl) < length batches"
    using assms(3) by (simp add: maxsize_def assms(2))
  have "\<exists>k rest. dispatcher (iter_parallel_start dl idxs) = Enqueue k rest"
    using assms(1) by (simp add: iter_parallel_start_def)
  from enqueue_never_ends[OF start_inv[OF assms(1)] this b, of es]
  obtain k rest where d: "dispatcher s = Enqueue k rest" unfolding assms(4) by blast
  have r: "rest = drop k batches" using I(12) d by simp
  have k: "k \<le> 2 * 65535 + W"
    using enqueue_bound[OF inv d] by (simp add: maxsize_def assms(2))
  have "drop k batches \<noteq> []" using k assms(3) by simp
  then have c1: "\<exists>k \<le> 2 * 65535 + W.
            dispatcher s = Enqueue k (drop k batches) \<and> drop k batches \<noteq> []"
    using d r k by blast
  have "curr_idx s = 0" using I(13) d by (simp add: phase_inv_def)
  then have c2: "yielded s = []" using yielded_length[OF inv] by simp
  have nd: "\<not> drained (dispatcher s)" using d by simp
  have c3: "(None, []) \<notin> set (key_queue s)" using sentinel_after_drain[OF inv] nd by blast
  have c4: "Terminated None \<notin> set (workers s)" using sentinel_after_drain[OF inv] nd by blast
  show ?thesis by (intro conjI c1 c2 c3 c4)
qed

text \<open>
  A loader as \<^verbatim>\<open>DataLoader(dataset, batch_size=1, num_workers=1)\<close> builds it for a dataset
  of 131072 items: its pass has 131072 index batches. The schedule lets the generator and
  the worker move in turn, 200000 times each.
\<close>

definition dataset_big :: "(int, int) dataset" where
  "dataset_big =
     \<lparr>getitem = (\<lambda>i. if i < 131072 then Inr (Other (int i)) else Inl IndexError),
      dataset_len = 131072\<rparr>"

definition loader_big :: "(int, int) DataLoader" where
  "loader_big =
     \<lparr>dl_dataset = dataset_big,
      dl_batch_sampler = BatchSampler_init (SequentialSampler 131072) 1 keep,
      dl_num_workers = 1,
      dl_batchify_fn = default_mp_batchify_fn asarray_int64\<rparr>"

definition schedule_big :: "event list" where
  "schedule_big = concat (replicate 200000 [Dispatcher, Worker 0])"

lemma loader_big_init:
  "DataLoader_init asarray_int64 dataset_big (Some 1) False None None None None 1 = Inr loader_big"
  by (simp add: DataLoader_init_def loader_big_def dataset_big_def)

lemma unit_batches:
  "length (fst (BatchSampler_iter (BatchSampler_init smp 1 p) idxs)) = length idxs"
proof -
  obtain full rest where fr: "chunks 1 [] idxs = (full, rest)" by (cases "chunks 1 [] idxs") auto
  from chunks_spec[OF fr] have c: "concat full @ rest = idxs"
    and u: "\<forall>x \<in> set full. length x = 1" and r: "length rest < 1"
    by auto
  have rest: "rest = []" using r by simp
  have "length idxs = length (concat full)" using c rest by simp
  also have "\<dots> = length full" using length_concat_uniform[OF u] by simp
  finally have "length full = length idxs" by simp
  then show ?thesis using fr rest by (simp add: BatchSampler_iter_def BatchSampler_init_def)
qed

theorem large_pass_blocks_in_enqueue_witness:
  "length (fst (BatchSampler_iter (dl_batch_sampler loader_big) [0 ..< 131072])) = 131072
   \<and> 2 * 65535 + nat (dl_num_workers loader_big)
     < length (fst (BatchSampler_iter (dl_batch_sampler loader_big) [0 ..< 131072]))
   \<and> (\<exists>k \<le> 131071.
         dispatcher (run loader_big schedule_big (iter_parallel_start loader_big [0 ..< 131072]))
           = Enqueue k (drop k (fst (BatchSampler_iter (dl_batch_sampler loader_big) [0 ..< 131072])))
         \<and> drop k (fst (BatchSampler_iter (dl_batch_sampler loader_big) [0 ..< 131072])) \<noteq> [])
   \<and> yielded (run loader_big schedule_big (iter_parallel_start loader_big [0 ..< 131072])) = []"
proof -
  let ?it = "BatchSampler_iter (dl_batch_sampler loader_big) [0 ..< 131072]"
  let ?s = "run loader_big schedule_big (iter_parallel_start loader_big [0 ..< 131072])"
  have l: "length (fst ?it) = 131072"
    by (simp add: loader_big_def unit_batches[unfolded One_nat_def])
  have w: "nat (dl_num_workers loader_big) = 1" by (simp add: loader_big_def)
  have h: "2 * 65535 + nat (dl_num_workers loader_big) < length (fst ?it)"
    unfolding l w by simp
  have p: "?it = (fst ?it, snd ?it)" by simp
  from large_pass_blocks_in_enqueue[OF p refl h refl, of schedule_big]
  have a: "\<exists>k \<le> 2 * 65535 + nat (dl_num_workers loader_big).
             dispatcher ?s = Enqueue k (drop k (fst ?it)) \<and> drop k (fst ?it) \<noteq> []"
    and y: "yielded ?s = []" by blast+
  have e: "2 * 65535 + nat (dl_num_workers loader_big) = 131071" unfolding w by simp
  have a': "\<exists>k \<le> 131071.
             dispatcher ?s = Enqueue k (drop k (fst ?it)) \<and> drop k (fst ?it) \<noteq> []"
    using a unfolding e .
  show ?thesis by (intro conjI l h a' y)
qed


subsection \<open>A concrete pass\<close>

text \<open>
  A loader with two workers over a dataset of four items, and a schedule of a whole pass
  in which the result of ticket 1 arrives before the result of ticket 0.
\<close>

definition dataset4 :: "(int, int) dataset" where
  "dataset4 = list_dataset (map Other [10, 11, 12, 13])"

definition loader_keep :: "(int, int) DataLoader" where
  "loader_keep =
     \<lparr>dl_dataset = dataset4,
      dl_batch_sampler = BatchSampler_init (SequentialSampler 4) 2 keep,
      dl_num_workers = 2,
      dl_batchify_fn = default_mp_batchify_fn asarray_int64\<rparr>"

definition schedule_keep :: "event list" where
  "schedule_keep =
     [Dispatcher, Dispatcher, Dispatcher, Worker 0, Worker 1, Worker 1, Worker 0,
      Dispatcher, Dispatcher, Dispatcher, Dispatcher, Dispatcher, Dispatcher,
      Worker 0, Worker 1, Dispatcher, Dispatcher, Dispatcher]"

lemma iter_keep4:
  "BatchSampler_iter (BatchSampler_init (SequentialSampler 4) 2 keep) [0, 1, 2, 3]
     = ([[0, 1], [2, 3]], BatchSampler_init (SequentialSampler 4) 2 keep)"
  by (simp add: BatchSampler_iter_def BatchSampler_init_def)

lemma len_keep4: "BatchSampler_len (BatchSampler_init (SequentialSampler 4) 2 keep) = 2"
  by (simp add: BatchSampler_len_def BatchSampler_iter_def BatchSampler_init_def upt_rec)

lemmas run_simps =
  dispatcher_step_def worker_step_def worker_iteration_def fetch_def
  list_dataset_def default_mp_batchify_fn_Other default_batchify_fn_Other asarray_int64_def
  nd_array_def maxsize_def flush_None flush_Some

lemma replicate_2: "replicate 2 x = [x, x]"
  by (simp add: numeral_2_eq_2)

lemma start_keep:
  "iter_parallel_start loader_keep [0, 1, 2, 3] =
     \<lparr>key_queue = [], data_queue = [], workers = [Idle, Idle],
      dispatcher = Enqueue 0 [[0, 1], [2, 3]], data_buffer = [], curr_idx = 0, yielded = [],
      sampler_state = BatchSampler_init (SequentialSampler 4) 2 keep, put_log = [], n_got = 0\<rparr>"
  by (simp add: iter_parallel_start_def loader_keep_def iter_keep4[unfolded One_nat_def] replicate_2)

lemma run_append: "run dl (es1 @ es2) s = run dl es2 (run dl es1 s)"
  by (induction es1 arbitrary: s) auto

lemma run_keep:
  "run loader_keep schedule_keep (iter_parallel_start loader_keep [0, 1, 2, 3]) =
     \<lparr>key_queue = [], data_queue = [], workers = [Terminated None, Terminated None],
       dispatcher = Done, data_buffer = [], curr_idx = 2, yielded = [BatchArray \<lparr>shape = [2], dtype = ''int64'', ctx = cpu_shared, elems = [10, 11]\<rparr>, BatchArray \<lparr>shape = [2], dtype = ''int64'', ctx = cpu_shared, elems = [12, 13]\<rparr>],
       sampler_state = BatchSampler_init (SequentialSampler 4) 2 keep,
       put_log = [(Some 0, [0, 1]), (Some 1, [2, 3]), (None, []), (None, [])], n_got = 2\<rparr>"
proof -
  let ?A = "\<lparr>key_queue = [(Some 0, [0, 1]), (Some 1, [2, 3])], data_queue = [], workers = [Idle, Idle],
       dispatcher = Drain 2, data_buffer = [], curr_idx = 0, yielded = [],
       sampler_state = BatchSampler_init (SequentialSampler 4) 2 keep,
       put_log = [(Some 0, [0, 1]), (Some 1, [2, 3])], n_got = 0\<rparr>"
  let ?B = "\<lparr>key_queue = [], data_queue = [(1, BatchArray \<lparr>shape = [2], dtype = ''int64'', ctx = cpu_shared, elems = [12, 13]\<rparr>), (0, BatchArray \<lparr>shape = [2], dtype = ''int64'', ctx = cpu_shared, elems = [10, 11]\<rparr>)], workers = [Idle, Idle],
       dispatcher = Drain 2, data_buffer = [], curr_idx = 0, yielded = [],
       sampler_state = BatchSampler_init (SequentialSampler 4) 2 keep,
       put_log = [(Some 0, [0, 1]), (Some 1, [2, 3])], n_got = 0\<rparr>"
  let ?C = "\<lparr>key_queue = [], data_queue = [], workers = [Idle, Idle],
       dispatcher = Drain 0, data_buffer = [], curr_idx = 2, yielded = [BatchArray \<lparr>shape = [2], dtype = ''int64'', ctx = cpu_shared, elems = [10, 11]\<rparr>, BatchArray \<lparr>shape = [2], dtype = ''int64'', ctx = cpu_shared, elems = [12, 13]\<rparr>],
       sampler_state = BatchSampler_init (SequentialSampler 4) 2 keep,
       put_log = [(Some 0, [0, 1]), (Some 1, [2, 3])], n_got = 2\<rparr>"
  let ?D = "\<lparr>key_queue = [(None, []), (None, [])], data_queue = [], workers = [Idle, Idle],
       dispatcher = Join 0, data_buffer = [], curr_idx = 2, yielded = [BatchArray \<lparr>shape = [2], dtype = ''int64'', ctx = cpu_shared, elems = [10, 11]\<rparr>, BatchArray \<lparr>shape = [2], dtype = ''int64'', ctx = cpu_shared, elems = [12, 13]\<rparr>],
       sampler_state = BatchSampler_init (SequentialSampler 4) 2 keep,
       put_log = [(Some 0, [0, 1]), (Some 1, [2, 3]), (None, []), (None, [])], n_got = 2\<rparr>"
  let ?E = "\<lparr>key_queue = [], data_queue = [], workers = [Terminated None, Terminated None],
       dispatcher = Join 0, data_buffer = [], curr_idx = 2, yielded = [BatchArray \<lparr>shape = [2], dtype = ''int64'', ctx = cpu_shared, elems = [10, 11]\<rparr>, BatchArray \<lparr>shape = [2], dtype = ''int64'', ctx = cpu_shared, elems = [12, 13]\<rparr>],
       sampler_state = BatchSampler_init (SequentialSampler 4) 2 keep,
       put_log = [(Some 0, [0, 1]), (Some 1, [2, 3]), (None, []), (None, [])], n_got = 2\<rparr>"
  have a: "run loader_keep [Dispatcher, Dispatcher, Dispatcher]
             (iter_parallel_start loader_keep [0, 1, 2, 3]) = ?A"
    by (simp add: start_keep[unfolded One_nat_def] len_keep4 dispatcher_step_def maxsize_def)
  have b: "run loader_keep [Worker 0, Worker 1, Worker 1, Worker 0] ?A = ?B"
    by (simp add: loader_keep_def dataset4_def run_simps)
  have c: "run loader_keep [Dispatcher, Dispatcher] ?B = ?C"
    by (simp add: dispatcher_step_def flush_None flush_Some numeral_2_eq_2)
  have d: "run loader_keep [Dispatcher, Dispatcher, Dispatcher, Dispatcher] ?C = ?D"
    by (simp add: dispatcher_step_def loader_keep_def maxsize_def numeral_2_eq_2)
  have e: "run loader_keep [Worker 0, Worker 1] ?D = ?E"
    by (simp add: worker_step_def worker_iteration_def)
  have f: "run loader_keep [Dispatcher, Dispatcher, Dispatcher] ?E =
     \<lparr>key_queue = [], data_queue = [], workers = [Terminated None, Terminated None],
       dispatcher = Done, data_buffer = [], curr_idx = 2, yielded = [BatchArray \<lparr>shape = [2], dtype = ''int64'', ctx = cpu_shared, elems = [10, 11]\<rparr>, BatchArray \<lparr>shape = [2], dtype = ''int64'', ctx = cpu_shared, elems = [12, 13]\<rparr>],
       sampler_state = BatchSampler_init (SequentialSampler 4) 2 keep,
       put_log = [(Some 0, [0, 1]), (Some 1, [2, 3]), (None, []), (None, [])], n_got = 2\<rparr>"
    by (simp add: dispatcher_step_def)
  have sch: "schedule_keep =
      [Dispatcher, Dispatcher, Dispatcher] @ [Worker 0, Worker 1, Worker 1, Worker 0]
      @ [Dispatcher, Dispatcher] @ [Dispatcher, Dispatcher, Dispatcher, Dispatcher]
      @ [Worker 0, Worker 1] @ [Dispatcher, Dispatcher, Dispatcher]"
    by (simp add: schedule_keep_def)
  show ?thesis
    unfolding sch run_append a b c d e f ..
qed


section \<open>The length of a loader and the batches of a pass\<close>

text \<open>
  The number of batches that the batch sampler yields depends on the number of indices
  only, so \<open>BatchSampler_len\<close> is the number of batches of the next pass.
\<close>

lemma chunks_length_only:
  "length cur = length cur' \<Longrightarrow> length xs = length ys \<Longrightarrow>
   length (fst (chunks b cur xs)) = length (fst (chunks b cur' ys))
   \<and> length (snd (chunks b cur xs)) = length (snd (chunks b cur' ys))"
proof (induction xs arbitrary: ys cur cur')
  case Nil
  then show ?case by simp
next
  case (Cons x xs)
  then obtain y ys' where ys: "ys = y # ys'" by (cases ys) auto
  then have l: "length xs = length ys'" using Cons.prems by simp
  show ?case
  proof (cases "Suc (length cur) = b")
    case True
    from Cons.IH[OF _ l, of "[]" "[]" ] have
      "length (fst (chunks b [] xs)) = length (fst (chunks b [] ys'))
       \<and> length (snd (chunks b [] xs)) = length (snd (chunks b [] ys'))" by simp
    then show ?thesis using True Cons.prems(1) ys by (auto split: prod.splits)
  next
    case False
    have "length (cur @ [x]) = length (cur' @ [y])" using Cons.prems(1) by simp
    from Cons.IH[OF this l] show ?thesis using False Cons.prems(1) ys by simp
  qed
qed

lemma BatchSampler_iter_count:
  assumes "length xs = length ys"
  shows "length (fst (BatchSampler_iter bs xs)) = length (fst (BatchSampler_iter bs ys))"
proof -
  obtain f1 r1 where c1: "chunks (bs_batch_size bs) (bs_prev bs) xs = (f1, r1)"
    by (cases "chunks (bs_batch_size bs) (bs_prev bs) xs") auto
  obtain f2 r2 where c2: "chunks (bs_batch_size bs) (bs_prev bs) ys = (f2, r2)"
    by (cases "chunks (bs_batch_size bs) (bs_prev bs) ys") auto
  from chunks_length_only[OF refl assms, of "bs_batch_size bs" "bs_prev bs"] c1 c2
  have "length f1 = length f2" "length r1 = length r2" by simp_all
  then have "length f1 = length f2" "r1 = [] \<longleftrightarrow> r2 = []" by auto
  then show ?thesis using c1 c2
    by (cases "bs_last_batch bs") (auto simp: BatchSampler_iter_def)
qed

text \<open>
  Synchronous mode: a pass that ends without an exception yields exactly
  \<^verbatim>\<open>len(loader)\<close> batches, whatever the \<open>last_batch\<close> policy.
\<close>

lemma sync_pass_yields_len:
  assumes "length idxs = sampler_len (bs_sampler (dl_batch_sampler dl))"
    and "iter_sync (dl_dataset dl) (dl_batchify_fn dl)
           (fst (BatchSampler_iter (dl_batch_sampler dl) idxs)) = (ys, None)"
  shows "length ys = DataLoader_len dl"
proof -
  have "length ys = length (fst (BatchSampler_iter (dl_batch_sampler dl) idxs))"
    using assms(2) by (rule iter_sync_length)
  also have "\<dots> = length (fst (BatchSampler_iter (dl_batch_sampler dl)
                       [0 ..< sampler_len (bs_sampler (dl_batch_sampler dl))]))"
    by (rule BatchSampler_iter_count) (simp add: assms(1))
  finally show ?thesis by (simp add: DataLoader_len_def BatchSampler_len_def)
qed


subsection \<open>Parallel mode with the rollover policy\<close>

text \<open>
  A loader as \<^verbatim>\<open>DataLoader(dataset, batch_size=3, last_batch='rollover', num_workers=1)\<close>
  builds it for a dataset of five items.
\<close>

definition dataset5 :: "(int, int) dataset" where
  "dataset5 = list_dataset (map Other [10, 11, 12, 13, 14])"

definition loader_rollover :: "(int, int) DataLoader" where
  "loader_rollover =
     \<lparr>dl_dataset = dataset5,
      dl_batch_sampler = BatchSampler_init (SequentialSampler 5) 3 rollover,
      dl_num_workers = 1,
      dl_batchify_fn = default_mp_batchify_fn asarray_int64\<rparr>"

text \<open>
  The state of its first pass after the only batch has been yielded: the generator waits
  for a second result, the queues are empty and the worker waits for a job.
\<close>

definition stuck_rollover :: "int pass" where
  "stuck_rollover =
     \<lparr>key_queue = [], data_queue = [], workers = [Idle],
       dispatcher = Drain 1, data_buffer = [], curr_idx = 1, yielded = [BatchArray \<lparr>shape = [3], dtype = ''int64'', ctx = cpu_shared, elems = [10, 11, 12]\<rparr>],
       sampler_state = \<lparr>bs_sampler = SequentialSampler 5, bs_batch_size = 3, bs_last_batch = rollover, bs_prev = [3, 4]\<rparr>,
       put_log = [(Some 0, [0, 1, 2])], n_got = 1\<rparr>"

text \<open>
  A rollover batch sampler over four items that has been iterated twice, and a loader that
  is given it as \<^verbatim>\<open>batch_sampler\<close>.
\<close>

definition sampler_advanced :: BatchSampler where
  "sampler_advanced =
     \<lparr>bs_sampler = SequentialSampler 4, bs_batch_size = 3, bs_last_batch = rollover,
      bs_prev = [2, 3]\<rparr>"

definition loader_advanced :: "(int, int) DataLoader" where
  "loader_advanced =
     \<lparr>dl_dataset = dataset4,
      dl_batch_sampler = sampler_advanced,
      dl_num_workers = 1,
      dl_batchify_fn = default_mp_batchify_fn asarray_int64\<rparr>"

definition schedule_advanced :: "event list" where
  "schedule_advanced =
     [Dispatcher, Dispatcher, Dispatcher, Worker 0, Worker 0,
      Dispatcher, Dispatcher, Dispatcher, Dispatcher,
      Worker 0, Worker 0, Worker 0, Dispatcher, Dispatcher]"

lemma loader_rollover_init:
  "DataLoader_init asarray_int64 dataset5 (Some 3) False None (Some rollover) None None 1
     = Inr loader_rollover"
  by (simp add: DataLoader_init_def loader_rollover_def dataset5_def list_dataset_def
      eval_nat_numeral)

lemma loader_advanced_init:
  "DataLoader_init asarray_int64 dataset4 None False None None (Some sampler_advanced) None 1
     = Inr loader_advanced"
  by (simp add: DataLoader_init_def loader_advanced_def)

lemma sampler_advanced_reached:
  "snd (BatchSampler_iter
         (snd (BatchSampler_iter (BatchSampler_init (SequentialSampler 4) 3 rollover) [0, 1, 2, 3]))
         [0, 1, 2, 3]) = sampler_advanced"
  by (simp add: BatchSampler_iter_def BatchSampler_init_def sampler_advanced_def)

lemma len_rollover: "DataLoader_len loader_rollover = 1"
  by (simp add: DataLoader_len_def loader_rollover_def BatchSampler_len_def BatchSampler_iter_def
      BatchSampler_init_def upt_rec)

lemma len_advanced: "DataLoader_len loader_advanced = 2"
  by (simp add: DataLoader_len_def loader_advanced_def sampler_advanced_def BatchSampler_len_def
      BatchSampler_iter_def upt_rec)

lemma start_rollover:
  "iter_parallel_start loader_rollover [0, 1, 2, 3, 4] =
     \<lparr>key_queue = [], data_queue = [], workers = [Idle],
       dispatcher = Enqueue 0 [[0, 1, 2]], data_buffer = [], curr_idx = 0, yielded = [],
       sampler_state = \<lparr>bs_sampler = SequentialSampler 5, bs_batch_size = 3, bs_last_batch = rollover, bs_prev = [3, 4]\<rparr>,
       put_log = [], n_got = 0\<rparr>"
  by (simp add: iter_parallel_start_def loader_rollover_def BatchSampler_iter_def
      BatchSampler_init_def)

lemma len_after_rollover:
  "BatchSampler_len \<lparr>bs_sampler = SequentialSampler 5, bs_batch_size = 3, bs_last_batch = rollover, bs_prev = [3, 4]\<rparr> = 2"
  by (simp add: BatchSampler_len_def BatchSampler_iter_def upt_rec)

lemma run_rollover:
  "run loader_rollover [Dispatcher, Dispatcher, Worker 0, Worker 0, Dispatcher]
     (iter_parallel_start loader_rollover [0, 1, 2, 3, 4]) = stuck_rollover"
proof -
  let ?A1 = "\<lparr>key_queue = [(Some 0, [0, 1, 2])], data_queue = [], workers = [Idle],
       dispatcher = Drain 2, data_buffer = [], curr_idx = 0, yielded = [],
       sampler_state = \<lparr>bs_sampler = SequentialSampler 5, bs_batch_size = 3, bs_last_batch = rollover, bs_prev = [3, 4]\<rparr>,
       put_log = [(Some 0, [0, 1, 2])], n_got = 0\<rparr>"
  let ?A2 = "\<lparr>key_queue = [], data_queue = [(0, BatchArray \<lparr>shape = [3], dtype = ''int64'', ctx = cpu_shared, elems = [10, 11, 12]\<rparr>)], workers = [Idle],
       dispatcher = Drain 2, data_buffer = [], curr_idx = 0, yielded = [],
       sampler_state = \<lparr>bs_sampler = SequentialSampler 5, bs_batch_size = 3, bs_last_batch = rollover, bs_prev = [3, 4]\<rparr>,
       put_log = [(Some 0, [0, 1, 2])], n_got = 0\<rparr>"
  have a: "run loader_rollover [Dispatcher, Dispatcher]
             (iter_parallel_start loader_rollover [0, 1, 2, 3, 4]) = ?A1"
    by (simp add: start_rollover[unfolded One_nat_def] len_after_rollover dispatcher_step_def
        maxsize_def)
  have b: "run loader_rollover [Worker 0, Worker 0] ?A1 = ?A2"
    by (simp add: loader_rollover_def dataset5_def run_simps)
  have c: "run loader_rollover [Dispatcher] ?A2 = stuck_rollover"
    by (simp add: stuck_rollover_def dispatcher_step_def flush_None flush_Some numeral_2_eq_2)
  have sch: "[Dispatcher, Dispatcher, Worker 0, Worker 0, Dispatcher]
      = [Dispatcher, Dispatcher] @ [Worker 0, Worker 0] @ [Dispatcher]" by simp
  show ?thesis unfolding sch run_append a b c ..
qed

lemma stuck_rollover_blocked: "step loader_rollover e stuck_rollover = None"
proof (cases e)
  case Dispatcher
  then show ?thesis by (simp add: stuck_rollover_def dispatcher_step_def)
next
  case (Worker w)
  then show ?thesis by (cases w) (simp_all add: stuck_rollover_def worker_step_def)
qed

lemma run_blocked: "(\<And>e. step dl e s = None) \<Longrightarrow> run dl es s = s"
  by (induction es) auto

lemma start_advanced:
  "iter_parallel_start loader_advanced [0, 1, 2, 3] =
     \<lparr>key_queue = [], data_queue = [], workers = [Idle],
       dispatcher = Enqueue 0 [[2, 3, 0], [1, 2, 3]], data_buffer = [], curr_idx = 0, yielded = [],
       sampler_state = \<lparr>bs_sampler = SequentialSampler 4, bs_batch_size = 3, bs_last_batch = rollover, bs_prev = []\<rparr>,
       put_log = [], n_got = 0\<rparr>"
  by (simp add: iter_parallel_start_def loader_advanced_def sampler_advanced_def
      BatchSampler_iter_def)

lemma len_after_advanced:
  "BatchSampler_len \<lparr>bs_sampler = SequentialSampler 4, bs_batch_size = 3, bs_last_batch = rollover, bs_prev = []\<rparr> = 1"
  by (simp add: BatchSampler_len_def BatchSampler_iter_def upt_rec)

lemma run_advanced:
  "run loader_advanced schedule_advanced (iter_parallel_start loader_advanced [0, 1, 2, 3]) =
     \<lparr>key_queue = [], data_queue = [(1, BatchArray \<lparr>shape = [3], dtype = ''int64'', ctx = cpu_shared, elems = [11, 12, 13]\<rparr>)], workers = [Terminated None],
       dispatcher = Done, data_buffer = [], curr_idx = 1, yielded = [BatchArray \<lparr>shape = [3], dtype = ''int64'', ctx = cpu_shared, elems = [12, 13, 10]\<rparr>],
       sampler_state = \<lparr>bs_sampler = SequentialSampler 4, bs_batch_size = 3, bs_last_batch = rollover, bs_prev = []\<rparr>,
       put_log = [(Some 0, [2, 3, 0]), (Some 1, [1, 2, 3]), (None, [])], n_got = 1\<rparr>"
proof -
  let ?B1 = "\<lparr>key_queue = [(Some 0, [2, 3, 0]), (Some 1, [1, 2, 3])], data_queue = [], workers = [Idle],
       dispatcher = Drain 1, data_buffer = [], curr_idx = 0, yielded = [],
       sampler_state = \<lparr>bs_sampler = SequentialSampler 4, bs_batch_size = 3, bs_last_batch = rollover, bs_prev = []\<rparr>,
       put_log = [(Some 0, [2, 3, 0]), (Some 1, [1, 2, 3])], n_got = 0\<rparr>"
  let ?B2 = "\<lparr>key_queue = [(Some 1, [1, 2, 3])], data_queue = [(0, BatchArray \<lparr>shape = [3], dtype = ''int64'', ctx = cpu_shared, elems = [12, 13, 10]\<rparr>)], workers = [Idle],
       dispatcher = Drain 1, data_buffer = [], curr_idx = 0, yielded = [],
       sampler_state = \<lparr>bs_sampler = SequentialSampler 4, bs_batch_size = 3, bs_last_batch = rollover, bs_prev = []\<rparr>,
       put_log = [(Some 0, [2, 3, 0]), (Some 1, [1, 2, 3])], n_got = 0\<rparr>"
  let ?B3 = "\<lparr>key_queue = [(Some 1, [1, 2, 3]), (None, [])], data_queue = [], workers = [Idle],
       dispatcher = Join 0, data_buffer = [], curr_idx = 1, yielded = [BatchArray \<lparr>shape = [3], dtype = ''int64'', ctx = cpu_shared, elems = [12, 13, 10]\<rparr>],
       sampler_state = \<lparr>bs_sampler = SequentialSampler 4, bs_batch_size = 3, bs_last_batch = rollover, bs_prev = []\<rparr>,
       put_log = [(Some 0, [2, 3, 0]), (Some 1, [1, 2, 3]), (None, [])], n_got = 1\<rparr>"
  let ?B4 = "\<lparr>key_queue = [], data_queue = [(1, BatchArray \<lparr>shape = [3], dtype = ''int64'', ctx = cpu_shared, elems = [11, 12, 13]\<rparr>)], workers = [Terminated None],
       dispatcher = Join 0, data_buffer = [], curr_idx = 1, yielded = [BatchArray \<lparr>shape = [3], dtype = ''int64'', ctx = cpu_shared, elems = [12, 13, 10]\<rparr>],
       sampler_state = \<lparr>bs_sampler = SequentialSampler 4, bs_batch_size = 3, bs_last_batch = rollover, bs_prev = []\<rparr>,
       put_log = [(Some 0, [2, 3, 0]), (Some 1, [1, 2, 3]), (None, [])], n_got = 1\<rparr>"
  have a: "run loader_advanced [Dispatcher, Dispatcher, Dispatcher]
             (iter_parallel_start loader_advanced [0, 1, 2, 3]) = ?B1"
    by (simp add: start_advanced[unfolded One_nat_def] len_after_advanced dispatcher_step_def
        maxsize_def)
  have b: "run loader_advanced [Worker 0, Worker 0] ?B1 = ?B2"
    by (simp add: loader_advanced_def dataset4_def run_simps)
  have c: "run loader_advanced [Dispatcher, Dispatcher, Dispatcher, Dispatcher] ?B2 = ?B3"
    by (simp add: loader_advanced_def dispatcher_step_def flush_None flush_Some maxsize_def)
  have d: "run loader_advanced [Worker 0, Worker 0, Worker 0] ?B3 = ?B4"
    by (simp add: loader_advanced_def dataset4_def run_simps)
  have e: "run loader_advanced [Dispatcher, Dispatcher] ?B4 =
     \<lparr>key_queue = [], data_queue = [(1, BatchArray \<lparr>shape = [3], dtype = ''int64'', ctx = cpu_shared, elems = [11, 12, 13]\<rparr>)], workers = [Terminated None],
       dispatcher = Done, data_buffer = [], curr_idx = 1, yielded = [BatchArray \<lparr>shape = [3], dtype = ''int64'', ctx = cpu_shared, elems = [12, 13, 10]\<rparr>],
       sampler_state = \<lparr>bs_sampler = SequentialSampler 4, bs_batch_size = 3, bs_last_batch = rollover, bs_prev = []\<rparr>,
       put_log = [(Some 0, [2, 3, 0]), (Some 1, [1, 2, 3]), (None, [])], n_got = 1\<rparr>"
    by (simp add: dispatcher_step_def)
  have sch: "schedule_advanced =
      [Dispatcher, Dispatcher, Dispatcher] @ [Worker 0, Worker 0]
      @ [Dispatcher, Dispatcher, Dispatcher, Dispatcher] @ [Worker 0, Worker 0, Worker 0]
      @ [Dispatcher, Dispatcher]"
    by (simp add: schedule_advanced_def)
  show ?thesis unfolding sch run_append a b c d e ..
qed

text \<open>
  Claim C2 (length), evaluated in parallel mode with the rollover policy. The parallel
  generator reads \<^verbatim>\<open>len(self._batch_sampler)\<close> after it has enumerated the batch sampler,
  when the leftover of this pass is already rolled over. For the fresh loader over five
  items \<^verbatim>\<open>len\<close> is 1; the pass yields its batch and then waits for a second result for
  ever, whatever is scheduled next. For the loader with the advanced sampler \<^verbatim>\<open>len\<close> is 2;
  the pass puts two jobs, takes one result, and completes with one batch yielded.
\<close>

theorem parallel_rollover_len_mismatch:
  "DataLoader_len loader_rollover = 1
   \<and> (\<forall>es. run loader_rollover ([Dispatcher, Dispatcher, Worker 0, Worker 0, Dispatcher] @ es)
              (iter_parallel_start loader_rollover [0, 1, 2, 3, 4]) = stuck_rollover)
   \<and> dispatcher stuck_rollover = Drain 1
   \<and> length (yielded stuck_rollover) = 1
   \<and> DataLoader_len loader_advanced = 2
   \<and> dispatcher (run loader_advanced schedule_advanced
                    (iter_parallel_start loader_advanced [0, 1, 2, 3])) = Done
   \<and> length (yielded (run loader_advanced schedule_advanced
                    (iter_parallel_start loader_advanced [0, 1, 2, 3]))) = 1"
proof -
  have st: "\<forall>es. run loader_rollover ([Dispatcher, Dispatcher, Worker 0, Worker 0, Dispatcher] @ es)
              (iter_parallel_start loader_rollover [0, 1, 2, 3, 4]) = stuck_rollover"
    unfolding run_append run_rollover
    by (simp add: run_blocked[OF stuck_rollover_blocked])
  have d1: "dispatcher stuck_rollover = Drain 1" by (simp add: stuck_rollover_def)
  have y1: "length (yielded stuck_rollover) = 1" by (simp add: stuck_rollover_def)
  have d2: "dispatcher (run loader_advanced schedule_advanced
                    (iter_parallel_start loader_advanced [0, 1, 2, 3])) = Done"
    unfolding run_advanced by simp
  have y2: "length (yielded (run loader_advanced schedule_advanced
                    (iter_parallel_start loader_advanced [0, 1, 2, 3]))) = 1"
    unfolding run_advanced by simp
  show ?thesis by (intro conjI len_rollover st d1 y1 len_advanced d2 y2)
qed

section \<open>The order of the batches of a parallel pass\<close>

text \<open>
  With the policies keep and discard the value of \<^verbatim>\<open>len(self._batch_sampler)\<close> after the
  enumeration is the number of index batches, so a completed parallel pass has yielded
  what the synchronous generator yields.
\<close>

lemma len_after_enumeration:
  assumes "bs_last_batch bs \<noteq> rollover" and "bs_prev bs = []"
    and "length idxs = sampler_len (bs_sampler bs)"
  shows "BatchSampler_len (snd (BatchSampler_iter bs idxs))
           = length (fst (BatchSampler_iter bs idxs))"
proof -
  have "bs\<lparr>bs_prev := []\<rparr> = bs" using assms(2) by simp
  then have s: "snd (BatchSampler_iter bs idxs) = bs"
    using assms(1)
    by (cases "bs_last_batch bs")
       (simp_all add: BatchSampler_iter_def split: prod.splits)
  have "BatchSampler_len bs = length (fst (BatchSampler_iter bs [0 ..< sampler_len (bs_sampler bs)]))"
    by (simp add: BatchSampler_len_def)
  also have "\<dots> = length (fst (BatchSampler_iter bs idxs))"
    by (rule BatchSampler_iter_count) (simp add: assms(3))
  finally show ?thesis unfolding s .
qed

lemma complete_pass_without_rollover:
  assumes "bs_last_batch (dl_batch_sampler dl) \<noteq> rollover"
    and "bs_prev (dl_batch_sampler dl) = []"
    and "length idxs = sampler_len (bs_sampler (dl_batch_sampler dl))"
    and "dispatcher (run dl es (iter_parallel_start dl idxs)) = Done"
  shows "iter_sync (dl_dataset dl) (dl_batchify_fn dl)
           (fst (BatchSampler_iter (dl_batch_sampler dl) idxs))
         = (yielded (run dl es (iter_parallel_start dl idxs)), None)"
proof -
  let ?it = "BatchSampler_iter (dl_batch_sampler dl) idxs"
  have p: "?it = (fst ?it, snd ?it)" by simp
  have inv: "pass_inv dl (fst ?it) (BatchSampler_len (snd ?it)) (run dl es (iter_parallel_start dl idxs))"
    by (rule reach_inv[OF p])
  show ?thesis
    by (rule complete_pass_yields_all[OF inv assms(4) len_after_enumeration[OF assms(1,2,3)]])
qed

text \<open>
  A loader with two workers that is given the rollover batch sampler \<open>sampler_advanced\<close>
  as \<^verbatim>\<open>batch_sampler\<close>. In both schedules the generator puts the two jobs, and each worker
  takes one and publishes its result: worker 0 first, or worker 1 first. The rest of the
  pass is the same: the generator takes the results it waits for, puts the sentinels and
  joins the workers, which take the sentinels.
\<close>

definition loader_reorder :: "(int, int) DataLoader" where
  "loader_reorder =
     \<lparr>dl_dataset = dataset4,
      dl_batch_sampler = sampler_advanced,
      dl_num_workers = 2,
      dl_batchify_fn = default_mp_batchify_fn asarray_int64\<rparr>"

definition arrival_in_order :: "event list" where
  "arrival_in_order =
     [Dispatcher, Dispatcher, Dispatcher, Worker 0, Worker 1, Worker 0, Worker 1]"

definition arrival_out_of_order :: "event list" where
  "arrival_out_of_order =
     [Dispatcher, Dispatcher, Dispatcher, Worker 0, Worker 1, Worker 1, Worker 0]"

definition finish_pass :: "event list" where
  "finish_pass =
     [Dispatcher, Dispatcher, Dispatcher, Dispatcher, Dispatcher,
      Worker 0, Worker 1, Dispatcher, Dispatcher, Dispatcher]"

lemma loader_reorder_init:
  "DataLoader_init asarray_int64 dataset4 None False None None (Some sampler_advanced) None 2
     = Inr loader_reorder"
  by (simp add: DataLoader_init_def loader_reorder_def)

lemma iter_reorder:
  "BatchSampler_iter (dl_batch_sampler loader_reorder) [0, 1, 2, 3]
     = ([[2, 3, 0], [1, 2, 3]],
        \<lparr>bs_sampler = SequentialSampler 4, bs_batch_size = 3, bs_last_batch = rollover, bs_prev = []\<rparr>)"
  by (simp add: loader_reorder_def sampler_advanced_def BatchSampler_iter_def)

lemma start_reorder:
  "iter_parallel_start loader_reorder [0, 1, 2, 3] =
     \<lparr>key_queue = [], data_queue = [], workers = [Idle, Idle],
       dispatcher = Enqueue 0 [[2, 3, 0], [1, 2, 3]], data_buffer = [], curr_idx = 0, yielded = [],
       sampler_state = \<lparr>bs_sampler = SequentialSampler 4, bs_batch_size = 3, bs_last_batch = rollover, bs_prev = []\<rparr>,
       put_log = [], n_got = 0\<rparr>"
  by (simp add: iter_parallel_start_def iter_reorder[unfolded One_nat_def])
     (simp add: loader_reorder_def replicate_2)

lemma sync_reorder:
  "iter_sync (dl_dataset loader_reorder) (dl_batchify_fn loader_reorder) [[2, 3, 0], [1, 2, 3]]
     = ([BatchArray \<lparr>shape = [3], dtype = ''int64'', ctx = cpu_shared, elems = [12, 13, 10]\<rparr>,
         BatchArray \<lparr>shape = [3], dtype = ''int64'', ctx = cpu_shared, elems = [11, 12, 13]\<rparr>], None)"
  by (simp add: loader_reorder_def dataset4_def fetch_def list_dataset_def
      default_mp_batchify_fn_Other asarray_int64_def nd_array_def)

lemma arrived_in_order:
  "run loader_reorder arrival_in_order (iter_parallel_start loader_reorder [0, 1, 2, 3]) =
     \<lparr>key_queue = [], data_queue = [(0, BatchArray \<lparr>shape = [3], dtype = ''int64'', ctx = cpu_shared, elems = [12, 13, 10]\<rparr>), (1, BatchArray \<lparr>shape = [3], dtype = ''int64'', ctx = cpu_shared, elems = [11, 12, 13]\<rparr>)], workers = [Idle, Idle],
       dispatcher = Drain 1, data_buffer = [], curr_idx = 0, yielded = [],
       sampler_state = \<lparr>bs_sampler = SequentialSampler 4, bs_batch_size = 3, bs_last_batch = rollover, bs_prev = []\<rparr>,
       put_log = [(Some 0, [2, 3, 0]), (Some 1, [1, 2, 3])], n_got = 0\<rparr>"
proof -
  let ?P1 = "\<lparr>key_queue = [(Some 0, [2, 3, 0]), (Some 1, [1, 2, 3])], data_queue = [], workers = [Idle, Idle],
       dispatcher = Drain 1, data_buffer = [], curr_idx = 0, yielded = [],
       sampler_state = \<lparr>bs_sampler = SequentialSampler 4, bs_batch_size = 3, bs_last_batch = rollover, bs_prev = []\<rparr>,
       put_log = [(Some 0, [2, 3, 0]), (Some 1, [1, 2, 3])], n_got = 0\<rparr>"
  have a: "run loader_reorder [Dispatcher, Dispatcher, Dispatcher] (iter_parallel_start loader_reorder [0, 1, 2, 3]) = ?P1"
    by (simp add: start_reorder[unfolded One_nat_def] len_after_advanced dispatcher_step_def
        maxsize_def)
  have b: "run loader_reorder [Worker 0, Worker 1, Worker 0, Worker 1] ?P1 =
     \<lparr>key_queue = [], data_queue = [(0, BatchArray \<lparr>shape = [3], dtype = ''int64'', ctx = cpu_shared, elems = [12, 13, 10]\<rparr>), (1, BatchArray \<lparr>shape = [3], dtype = ''int64'', ctx = cpu_shared, elems = [11, 12, 13]\<rparr>)], workers = [Idle, Idle],
       dispatcher = Drain 1, data_buffer = [], curr_idx = 0, yielded = [],
       sampler_state = \<lparr>bs_sampler = SequentialSampler 4, bs_batch_size = 3, bs_last_batch = rollover, bs_prev = []\<rparr>,
       put_log = [(Some 0, [2, 3, 0]), (Some 1, [1, 2, 3])], n_got = 0\<rparr>"
    by (simp add: loader_reorder_def dataset4_def run_simps)
  have sch: "arrival_in_order =
      [Dispatcher, Dispatcher, Dispatcher] @ [Worker 0, Worker 1, Worker 0, Worker 1]"
    by (simp add: arrival_in_order_def)
  show ?thesis unfolding sch run_append a b ..
qed

lemma arrived_out_of_order:
  "run loader_reorder arrival_out_of_order (iter_parallel_start loader_reorder [0, 1, 2, 3]) =
     \<lparr>key_queue = [], data_queue = [(1, BatchArray \<lparr>shape = [3], dtype = ''int64'', ctx = cpu_shared, elems = [11, 12, 13]\<rparr>), (0, BatchArray \<lparr>shape = [3], dtype = ''int64'', ctx = cpu_shared, elems = [12, 13, 10]\<rparr>)], workers = [Idle, Idle],
       dispatcher = Drain 1, data_buffer = [], curr_idx = 0, yielded = [],
       sampler_state = \<lparr>bs_sampler = SequentialSampler 4, bs_batch_size = 3, bs_last_batch = rollover, bs_prev = []\<rparr>,
       put_log = [(Some 0, [2, 3, 0]), (Some 1, [1, 2, 3])], n_got = 0\<rparr>"
proof -
  let ?P1 = "\<lparr>key_queue = [(Some 0, [2, 3, 0]), (Some 1, [1, 2, 3])], data_queue = [], workers = [Idle, Idle],
       dispatcher = Drain 1, data_buffer = [], curr_idx = 0, yielded = [],
       sampler_state = \<lparr>bs_sampler = SequentialSampler 4, bs_batch_size = 3, bs_last_batch = rollover, bs_prev = []\<rparr>,
       put_log = [(Some 0, [2, 3, 0]), (Some 1, [1, 2, 3])], n_got = 0\<rparr>"
  have a: "run loader_reorder [Dispatcher, Dispatcher, Dispatcher] (iter_parallel_start loader_reorder [0, 1, 2, 3]) = ?P1"
    by (simp add: start_reorder[unfolded One_nat_def] len_after_advanced dispatcher_step_def
        maxsize_def)
  have b: "run loader_reorder [Worker 0, Worker 1, Worker 1, Worker 0] ?P1 =
     \<lparr>key_queue = [], data_queue = [(1, BatchArray \<lparr>shape = [3], dtype = ''int64'', ctx = cpu_shared, elems = [11, 12, 13]\<rparr>), (0, BatchArray \<lparr>shape = [3], dtype = ''int64'', ctx = cpu_shared, elems = [12, 13, 10]\<rparr>)], workers = [Idle, Idle],
       dispatcher = Drain 1, data_buffer = [], curr_idx = 0, yielded = [],
       sampler_state = \<lparr>bs_sampler = SequentialSampler 4, bs_batch_size = 3, bs_last_batch = rollover, bs_prev = []\<rparr>,
       put_log = [(Some 0, [2, 3, 0]), (Some 1, [1, 2, 3])], n_got = 0\<rparr>"
    by (simp add: loader_reorder_def dataset4_def run_simps)
  have sch: "arrival_out_of_order =
      [Dispatcher, Dispatcher, Dispatcher] @ [Worker 0, Worker 1, Worker 1, Worker 0]"
    by (simp add: arrival_out_of_order_def)
  show ?thesis unfolding sch run_append a b ..
qed

lemma finished_in_order:
  "run loader_reorder (arrival_in_order @ finish_pass) (iter_parallel_start loader_reorder [0, 1, 2, 3]) =
     \<lparr>key_queue = [], data_queue = [(1, BatchArray \<lparr>shape = [3], dtype = ''int64'', ctx = cpu_shared, elems = [11, 12, 13]\<rparr>)], workers = [Terminated None, Terminated None],
       dispatcher = Done, data_buffer = [], curr_idx = 1, yielded = [BatchArray \<lparr>shape = [3], dtype = ''int64'', ctx = cpu_shared, elems = [12, 13, 10]\<rparr>],
       sampler_state = \<lparr>bs_sampler = SequentialSampler 4, bs_batch_size = 3, bs_last_batch = rollover, bs_prev = []\<rparr>,
       put_log = [(Some 0, [2, 3, 0]), (Some 1, [1, 2, 3]), (None, []), (None, [])], n_got = 1\<rparr>"
proof -
  let ?P2 = "\<lparr>key_queue = [], data_queue = [(0, BatchArray \<lparr>shape = [3], dtype = ''int64'', ctx = cpu_shared, elems = [12, 13, 10]\<rparr>), (1, BatchArray \<lparr>shape = [3], dtype = ''int64'', ctx = cpu_shared, elems = [11, 12, 13]\<rparr>)], workers = [Idle, Idle],
       dispatcher = Drain 1, data_buffer = [], curr_idx = 0, yielded = [],
       sampler_state = \<lparr>bs_sampler = SequentialSampler 4, bs_batch_size = 3, bs_last_batch = rollover, bs_prev = []\<rparr>,
       put_log = [(Some 0, [2, 3, 0]), (Some 1, [1, 2, 3])], n_got = 0\<rparr>"
  let ?P3 = "\<lparr>key_queue = [(None, []), (None, [])], data_queue = [(1, BatchArray \<lparr>shape = [3], dtype = ''int64'', ctx = cpu_shared, elems = [11, 12, 13]\<rparr>)], workers = [Idle, Idle],
       dispatcher = Join 0, data_buffer = [], curr_idx = 1, yielded = [BatchArray \<lparr>shape = [3], dtype = ''int64'', ctx = cpu_shared, elems = [12, 13, 10]\<rparr>],
       sampler_state = \<lparr>bs_sampler = SequentialSampler 4, bs_batch_size = 3, bs_last_batch = rollover, bs_prev = []\<rparr>,
       put_log = [(Some 0, [2, 3, 0]), (Some 1, [1, 2, 3]), (None, []), (None, [])], n_got = 1\<rparr>"
  let ?P4 = "\<lparr>key_queue = [], data_queue = [(1, BatchArray \<lparr>shape = [3], dtype = ''int64'', ctx = cpu_shared, elems = [11, 12, 13]\<rparr>)], workers = [Terminated None, Terminated None],
       dispatcher = Join 0, data_buffer = [], curr_idx = 1, yielded = [BatchArray \<lparr>shape = [3], dtype = ''int64'', ctx = cpu_shared, elems = [12, 13, 10]\<rparr>],
       sampler_state = \<lparr>bs_sampler = SequentialSampler 4, bs_batch_size = 3, bs_last_batch = rollover, bs_prev = []\<rparr>,
       put_log = [(Some 0, [2, 3, 0]), (Some 1, [1, 2, 3]), (None, []), (None, [])], n_got = 1\<rparr>"
  have c: "run loader_reorder [Dispatcher, Dispatcher, Dispatcher, Dispatcher, Dispatcher] ?P2 = ?P3"
    by (simp add: loader_reorder_def dispatcher_step_def flush_None flush_Some maxsize_def
        numeral_2_eq_2)
  have d: "run loader_reorder [Worker 0, Worker 1] ?P3 = ?P4"
    by (simp add: worker_step_def worker_iteration_def)
  have e: "run loader_reorder [Dispatcher, Dispatcher, Dispatcher] ?P4 =
     \<lparr>key_queue = [], data_queue = [(1, BatchArray \<lparr>shape = [3], dtype = ''int64'', ctx = cpu_shared, elems = [11, 12, 13]\<rparr>)], workers = [Terminated None, Terminated None],
       dispatcher = Done, data_buffer = [], curr_idx = 1, yielded = [BatchArray \<lparr>shape = [3], dtype = ''int64'', ctx = cpu_shared, elems = [12, 13, 10]\<rparr>],
       sampler_state = \<lparr>bs_sampler = SequentialSampler 4, bs_batch_size = 3, bs_last_batch = rollover, bs_prev = []\<rparr>,
       put_log = [(Some 0, [2, 3, 0]), (Some 1, [1, 2, 3]), (None, []), (None, [])], n_got = 1\<rparr>"
    by (simp add: dispatcher_step_def)
  have sch: "finish_pass =
      [Dispatcher, Dispatcher, Dispatcher, Dispatcher, Dispatcher] @ [Worker 0, Worker 1]
      @ [Dispatcher, Dispatcher, Dispatcher]"
    by (simp add: finish_pass_def)
  show ?thesis unfolding run_append arrived_in_order unfolding sch run_append c d e ..
qed

lemma finished_out_of_order:
  "run loader_reorder (arrival_out_of_order @ finish_pass) (iter_parallel_start loader_reorder [0, 1, 2, 3]) =
     \<lparr>key_queue = [], data_queue = [(0, BatchArray \<lparr>shape = [3], dtype = ''int64'', ctx = cpu_shared, elems = [12, 13, 10]\<rparr>)], workers = [Terminated None, Terminated None],
       dispatcher = Done, data_buffer = [(1, BatchArray \<lparr>shape = [3], dtype = ''int64'', ctx = cpu_shared, elems = [11, 12, 13]\<rparr>)], curr_idx = 0, yielded = [],
       sampler_state = \<lparr>bs_sampler = SequentialSampler 4, bs_batch_size = 3, bs_last_batch = rollover, bs_prev = []\<rparr>,
       put_log = [(Some 0, [2, 3, 0]), (Some 1, [1, 2, 3]), (None, []), (None, [])], n_got = 1\<rparr>"
proof -
  let ?Q2 = "\<lparr>key_queue = [], data_queue = [(1, BatchArray \<lparr>shape = [3], dtype = ''int64'', ctx = cpu_shared, elems = [11, 12, 13]\<rparr>), (0, BatchArray \<lparr>shape = [3], dtype = ''int64'', ctx = cpu_shared, elems = [12, 13, 10]\<rparr>)], workers = [Idle, Idle],
       dispatcher = Drain 1, data_buffer = [], curr_idx = 0, yielded = [],
       sampler_state = \<lparr>bs_sampler = SequentialSampler 4, bs_batch_size = 3, bs_last_batch = rollover, bs_prev = []\<rparr>,
       put_log = [(Some 0, [2, 3, 0]), (Some 1, [1, 2, 3])], n_got = 0\<rparr>"
  let ?Q3 = "\<lparr>key_queue = [(None, []), (None, [])], data_queue = [(0, BatchArray \<lparr>shape = [3], dtype = ''int64'', ctx = cpu_shared, elems = [12, 13, 10]\<rparr>)], workers = [Idle, Idle],
       dispatcher = Join 0, data_buffer = [(1, BatchArray \<lparr>shape = [3], dtype = ''int64'', ctx = cpu_shared, elems = [11, 12, 13]\<rparr>)], curr_idx = 0, yielded = [],
       sampler_state = \<lparr>bs_sampler = SequentialSampler 4, bs_batch_size = 3, bs_last_batch = rollover, bs_prev = []\<rparr>,
       put_log = [(Some 0, [2, 3, 0]), (Some 1, [1, 2, 3]), (None, []), (None, [])], n_got = 1\<rparr>"
  let ?Q4 = "\<lparr>key_queue = [], data_queue = [(0, BatchArray \<lparr>shape = [3], dtype = ''int64'', ctx = cpu_shared, elems = [12, 13, 10]\<rparr>)], workers = [Terminated None, Terminated None],
       dispatcher = Join 0, data_buffer = [(1, BatchArray \<lparr>shape = [3], dtype = ''int64'', ctx = cpu_shared, elems = [11, 12, 13]\<rparr>)], curr_idx = 0, yielded = [],
       sampler_state = \<lparr>bs_sampler = SequentialSampler 4, bs_batch_size = 3, bs_last_batch = rollover, bs_prev = []\<rparr>,
       put_log = [(Some 0, [2, 3, 0]), (Some 1, [1, 2, 3]), (None, []), (None, [])], n_got = 1\<rparr>"
  have c: "run loader_reorder [Dispatcher, Dispatcher, Dispatcher, Dispatcher, Dispatcher] ?Q2 = ?Q3"
    by (simp add: loader_reorder_def dispatcher_step_def flush_None flush_Some maxsize_def
        numeral_2_eq_2)
  have d: "run loader_reorder [Worker 0, Worker 1] ?Q3 = ?Q4"
    by (simp add: worker_step_def worker_iteration_def)
  have e: "run loader_reorder [Dispatcher, Dispatcher, Dispatcher] ?Q4 =
     \<lparr>key_queue = [], data_queue = [(0, BatchArray \<lparr>shape = [3], dtype = ''int64'', ctx = cpu_shared, elems = [12, 13, 10]\<rparr>)], workers = [Terminated None, Terminated None],
       dispatcher = Done, data_buffer = [(1, BatchArray \<lparr>shape = [3], dtype = ''int64'', ctx = cpu_shared, elems = [11, 12, 13]\<rparr>)], curr_idx = 0, yielded = [],
       sampler_state = \<lparr>bs_sampler = SequentialSampler 4, bs_batch_size = 3, bs_last_batch = rollover, bs_prev = []\<rparr>,
       put_log = [(Some 0, [2, 3, 0]), (Some 1, [1, 2, 3]), (None, []), (None, [])], n_got = 1\<rparr>"
    by (simp add: dispatcher_step_def)
  have sch: "finish_pass =
      [Dispatcher, Dispatcher, Dispatcher, Dispatcher, Dispatcher] @ [Worker 0, Worker 1]
      @ [Dispatcher, Dispatcher, Dispatcher]"
    by (simp add: finish_pass_def)
  show ?thesis unfolding run_append arrived_out_of_order unfolding sch run_append c d e ..
qed

text \<open>
  Claim C1 (ordering). In every state that a parallel pass reaches, under any schedule, the
  batches yielded so far are the batches of the first index batches of the batch sampler,
  in sampler order: what the synchronous generator yields for these index batches. A
  completed pass has yielded the batch of every index batch when
  \<^verbatim>\<open>len(self._batch_sampler)\<close>, read after the enumeration, is the number of index batches,
  as it is with the policies keep and discard. For the loader with the advanced rollover
  sampler it is not: two jobs are put and one result is taken. When the result of ticket 0
  arrives first, the completed pass has yielded the first batch only; when the result of
  ticket 1 arrives first, it stays in the buffer and the completed pass has yielded
  nothing. The synchronous generator yields both batches.
\<close>

theorem parallel_pass_order:
  "(BatchSampler_iter (dl_batch_sampler dl) idxs = (batches, bs') \<longrightarrow>
      iter_sync (dl_dataset dl) (dl_batchify_fn dl)
          (take (length (yielded (run dl es (iter_parallel_start dl idxs)))) batches)
        = (yielded (run dl es (iter_parallel_start dl idxs)), None)
      \<and> (dispatcher (run dl es (iter_parallel_start dl idxs)) = Done
           \<and> BatchSampler_len bs' = length batches \<longrightarrow>
         iter_sync (dl_dataset dl) (dl_batchify_fn dl) batches
           = (yielded (run dl es (iter_parallel_start dl idxs)), None)))
   \<and> iter_sync (dl_dataset loader_reorder) (dl_batchify_fn loader_reorder)
        (fst (BatchSampler_iter (dl_batch_sampler loader_reorder) [0, 1, 2, 3]))
      = ([BatchArray \<lparr>shape = [3], dtype = ''int64'', ctx = cpu_shared, elems = [12, 13, 10]\<rparr>,
          BatchArray \<lparr>shape = [3], dtype = ''int64'', ctx = cpu_shared, elems = [11, 12, 13]\<rparr>], None)
   \<and> data_queue (run loader_reorder arrival_in_order (iter_parallel_start loader_reorder [0, 1, 2, 3]))
      = [(0, BatchArray \<lparr>shape = [3], dtype = ''int64'', ctx = cpu_shared, elems = [12, 13, 10]\<rparr>),
         (1, BatchArray \<lparr>shape = [3], dtype = ''int64'', ctx = cpu_shared, elems = [11, 12, 13]\<rparr>)]
   \<and> dispatcher (run loader_reorder (arrival_in_order @ finish_pass) (iter_parallel_start loader_reorder [0, 1, 2, 3])) = Done
   \<and> yielded (run loader_reorder (arrival_in_order @ finish_pass) (iter_parallel_start loader_reorder [0, 1, 2, 3]))
      = [BatchArray \<lparr>shape = [3], dtype = ''int64'', ctx = cpu_shared, elems = [12, 13, 10]\<rparr>]
   \<and> data_queue (run loader_reorder arrival_out_of_order (iter_parallel_start loader_reorder [0, 1, 2, 3]))
      = [(1, BatchArray \<lparr>shape = [3], dtype = ''int64'', ctx = cpu_shared, elems = [11, 12, 13]\<rparr>),
         (0, BatchArray \<lparr>shape = [3], dtype = ''int64'', ctx = cpu_shared, elems = [12, 13, 10]\<rparr>)]
   \<and> dispatcher (run loader_reorder (arrival_out_of_order @ finish_pass) (iter_parallel_start loader_reorder [0, 1, 2, 3])) = Done
   \<and> yielded (run loader_reorder (arrival_out_of_order @ finish_pass) (iter_parallel_start loader_reorder [0, 1, 2, 3])) = []"
proof -
  have g: "BatchSampler_iter (dl_batch_sampler dl) idxs = (batches, bs') \<longrightarrow>
      iter_sync (dl_dataset dl) (dl_batchify_fn dl)
          (take (length (yielded (run dl es (iter_parallel_start dl idxs)))) batches)
        = (yielded (run dl es (iter_parallel_start dl idxs)), None)
      \<and> (dispatcher (run dl es (iter_parallel_start dl idxs)) = Done
           \<and> BatchSampler_len bs' = length batches \<longrightarrow>
         iter_sync (dl_dataset dl) (dl_batchify_fn dl) batches
           = (yielded (run dl es (iter_parallel_start dl idxs)), None))"
  proof (intro impI conjI)
    assume it: "BatchSampler_iter (dl_batch_sampler dl) idxs = (batches, bs')"
    let ?s = "run dl es (iter_parallel_start dl idxs)"
    have inv: "pass_inv dl batches (BatchSampler_len bs') ?s" by (rule reach_inv[OF it])
    show "iter_sync (dl_dataset dl) (dl_batchify_fn dl) (take (length (yielded ?s)) batches)
            = (yielded ?s, None)"
      using pass_invD(11)[OF inv] unfolding yielded_length[OF inv] .
    assume d: "dispatcher ?s = Done \<and> BatchSampler_len bs' = length batches"
    show "iter_sync (dl_dataset dl) (dl_batchify_fn dl) batches = (yielded ?s, None)"
      using complete_pass_yields_all[OF inv] d by blast
  qed
  have s: "iter_sync (dl_dataset loader_reorder) (dl_batchify_fn loader_reorder)
        (fst (BatchSampler_iter (dl_batch_sampler loader_reorder) [0, 1, 2, 3]))
      = ([BatchArray \<lparr>shape = [3], dtype = ''int64'', ctx = cpu_shared, elems = [12, 13, 10]\<rparr>,
          BatchArray \<lparr>shape = [3], dtype = ''int64'', ctx = cpu_shared, elems = [11, 12, 13]\<rparr>], None)"
    unfolding iter_reorder fst_conv by (rule sync_reorder)
  have q1: "data_queue (run loader_reorder arrival_in_order (iter_parallel_start loader_reorder [0, 1, 2, 3]))
      = [(0, BatchArray \<lparr>shape = [3], dtype = ''int64'', ctx = cpu_shared, elems = [12, 13, 10]\<rparr>),
         (1, BatchArray \<lparr>shape = [3], dtype = ''int64'', ctx = cpu_shared, elems = [11, 12, 13]\<rparr>)]"
    unfolding arrived_in_order by simp
  have d1: "dispatcher (run loader_reorder (arrival_in_order @ finish_pass) (iter_parallel_start loader_reorder [0, 1, 2, 3])) = Done"
    unfolding finished_in_order by simp
  have y1: "yielded (run loader_reorder (arrival_in_order @ finish_pass) (iter_parallel_start loader_reorder [0, 1, 2, 3]))
      = [BatchArray \<lparr>shape = [3], dtype = ''int64'', ctx = cpu_shared, elems = [12, 13, 10]\<rparr>]"
    unfolding finished_in_order by simp
  have q2: "data_queue (run loader_reorder arrival_out_of_order (iter_parallel_start loader_reorder [0, 1, 2, 3]))
      = [(1, BatchArray \<lparr>shape = [3], dtype = ''int64'', ctx = cpu_shared, elems = [11, 12, 13]\<rparr>),
         (0, BatchArray \<lparr>shape = [3], dtype = ''int64'', ctx = cpu_shared, elems = [12, 13, 10]\<rparr>)]"
    unfolding arrived_out_of_order by simp
  have d2: "dispatcher (run loader_reorder (arrival_out_of_order @ finish_pass) (iter_parallel_start loader_reorder [0, 1, 2, 3])) = Done"
    unfolding finished_out_of_order by simp
  have y2: "yielded (run loader_reorder (arrival_out_of_order @ finish_pass) (iter_parallel_start loader_reorder [0, 1, 2, 3])) = []"
    unfolding finished_out_of_order by simp
  show ?thesis by (intro conjI g s q1 d1 y1 q2 d2 y2)
qed

theorem parallel_pass_order_witness:
  "BatchSampler_iter (dl_batch_sampler loader_keep) [0, 1, 2, 3]
     = ([[0, 1], [2, 3]], BatchSampler_init (SequentialSampler 4) 2 keep)
   \<and> dispatcher (run loader_keep schedule_keep (iter_parallel_start loader_keep [0, 1, 2, 3])) = Done
   \<and> BatchSampler_len (BatchSampler_init (SequentialSampler 4) 2 keep) = length [[0, 1], [2, 3::nat]]
   \<and> iter_sync (dl_dataset loader_keep) (dl_batchify_fn loader_keep) [[0, 1], [2, 3]]
       = (yielded (run loader_keep schedule_keep (iter_parallel_start loader_keep [0, 1, 2, 3])), None)
   \<and> yielded (run loader_keep schedule_keep (iter_parallel_start loader_keep [0, 1, 2, 3]))
       = [BatchArray \<lparr>shape = [2], dtype = ''int64'', ctx = cpu_shared, elems = [10, 11]\<rparr>,
          BatchArray \<lparr>shape = [2], dtype = ''int64'', ctx = cpu_shared, elems = [12, 13]\<rparr>]"
proof -
  let ?s = "run loader_keep schedule_keep (iter_parallel_start loader_keep [0, 1, 2, 3])"
  have it: "BatchSampler_iter (dl_batch_sampler loader_keep) [0, 1, 2, 3]
     = ([[0, 1], [2, 3]], BatchSampler_init (SequentialSampler 4) 2 keep)"
    by (simp add: loader_keep_def iter_keep4[unfolded One_nat_def])
  have dn: "dispatcher ?s = Done" unfolding run_keep by simp
  have ln: "BatchSampler_len (BatchSampler_init (SequentialSampler 4) 2 keep)
              = length [[0, 1], [2, 3::nat]]"
    unfolding len_keep4 by simp
  have y: "yielded ?s
       = [BatchArray \<lparr>shape = [2], dtype = ''int64'', ctx = cpu_shared, elems = [10, 11]\<rparr>,
          BatchArray \<lparr>shape = [2], dtype = ''int64'', ctx = cpu_shared, elems = [12, 13]\<rparr>]"
    unfolding run_keep by simp
  note t = parallel_pass_order[THEN conjunct1, rule_format, OF it, of schedule_keep]
  have sy: "iter_sync (dl_dataset loader_keep) (dl_batchify_fn loader_keep) [[0, 1], [2, 3]]
       = (yielded ?s, None)"
    using t[THEN conjunct2, rule_format, OF conjI[OF dn ln]] .
  show ?thesis by (intro conjI it dn ln sy y)
qed


end
